theory Spec2Isabelle
  imports Main
begin

section \<open>Text: Python strings as lists of code points\<close>

text \<open>
  A Python \<^verbatim>\<open>str\<close> is a sequence of Unicode code points, so a text is a list of
  natural numbers. \<open>str\<close> turns an Isabelle string literal into such a list (the
  literals used below are ASCII, where a character and its code point coincide).
\<close>

type_synonym utext = "nat list"

definition str :: "string \<Rightarrow> utext" where
  "str s = map of_char s"

definition NL :: nat where "NL = 10"
definition CR :: nat where "CR = 13"
definition HYPHEN :: nat where "HYPHEN = 45"

text \<open>
  The character classes of \<^verbatim>\<open>re\<close> and the case mappings of \<^verbatim>\<open>str\<close> are fixed
  by the Unicode database of the Python runtime. On ASCII they are written out here;
  beyond ASCII they are read from a table that every function of the text layer takes
  as its first argument, so that a theorem holds whatever the database says.
\<close>

record unicode_tables =
  u_alnum :: "nat \<Rightarrow> bool"
  u_decimal :: "nat \<Rightarrow> bool"
  u_upper :: "nat \<Rightarrow> nat list"
  u_lower :: "nat \<Rightarrow> nat"

definition ascii_digit :: "nat \<Rightarrow> bool" where
  "ascii_digit c = (48 \<le> c \<and> c \<le> 57)"

definition ascii_upper :: "nat \<Rightarrow> bool" where
  "ascii_upper c = (65 \<le> c \<and> c \<le> 90)"

definition ascii_lower :: "nat \<Rightarrow> bool" where
  "ascii_lower c = (97 \<le> c \<and> c \<le> 122)"

text \<open>\<^verbatim>\<open>\w\<close>: alphanumeric or underscore.\<close>

definition is_word :: "unicode_tables \<Rightarrow> nat \<Rightarrow> bool" where
  "is_word U c =
     (if c < 128 then ascii_digit c \<or> ascii_upper c \<or> ascii_lower c \<or> c = 95
      else u_alnum U c)"

text \<open>\<^verbatim>\<open>\d\<close>: a decimal digit.\<close>

definition is_digit :: "unicode_tables \<Rightarrow> nat \<Rightarrow> bool" where
  "is_digit U c = (if c < 128 then ascii_digit c else u_decimal U c)"

text \<open>
  \<^verbatim>\<open>\s\<close> and the characters \<^verbatim>\<open>str.strip()\<close> removes: the code points Python
  classifies as whitespace (a finite set, written out in full).
\<close>

definition is_space :: "nat \<Rightarrow> bool" where
  "is_space c =
     ((9 \<le> c \<and> c \<le> 13) \<or> (28 \<le> c \<and> c \<le> 32) \<or> c = 133 \<or> c = 160 \<or> c = 5760 \<or>
      (8192 \<le> c \<and> c \<le> 8202) \<or> c = 8232 \<or> c = 8233 \<or> c = 8239 \<or> c = 8287 \<or>
      c = 12288)"

text \<open>\<^verbatim>\<open>s.strip()\<close>, \<^verbatim>\<open>s.rstrip()\<close> and \<^verbatim>\<open>s.upper()\<close>.\<close>

definition rstrip :: "utext \<Rightarrow> utext" where
  "rstrip s = rev (dropWhile is_space (rev s))"

definition strip :: "utext \<Rightarrow> utext" where
  "strip s = rstrip (dropWhile is_space s)"

definition upper_cp :: "unicode_tables \<Rightarrow> nat \<Rightarrow> nat list" where
  "upper_cp U c =
     (if c < 128 then (if ascii_lower c then [c - 32] else [c]) else u_upper U c)"

definition upper :: "unicode_tables \<Rightarrow> utext \<Rightarrow> utext" where
  "upper U s = concat (map (upper_cp U) s)"

text \<open>
  A table for concrete evaluation: in it no code point beyond ASCII is alphanumeric or
  a digit, and none has a case mapping. The inputs evaluated below are ASCII, for which
  the table is never consulted.
\<close>

definition plain_tables :: unicode_tables where
  "plain_tables =
     \<lparr>u_alnum = (\<lambda>_. False), u_decimal = (\<lambda>_. False),
      u_upper = (\<lambda>c. [c]), u_lower = (\<lambda>c. c)\<rparr>"

section \<open>Output sanitizers\<close>

text \<open>
  The class \<^verbatim>\<open>[\x00-\x08\x0B\x0C\x0E-\x1F]\<close> of both sanitizers; \<^verbatim>\<open>re.sub\<close> with an
  empty replacement of a one-character class deletes the characters of the class.
\<close>

definition control_class :: "nat \<Rightarrow> bool" where
  "control_class c = (c \<le> 8 \<or> c = 11 \<or> c = 12 \<or> (14 \<le> c \<and> c \<le> 31))"

definition sanitize_for_excel :: "utext option \<Rightarrow> utext" where
  "sanitize_for_excel s =
     (case s of None \<Rightarrow> [] | Some t \<Rightarrow> filter (\<lambda>c. \<not> control_class c) t)"

definition sanitize_for_json :: "utext option \<Rightarrow> utext" where
  "sanitize_for_json s =
     (case s of None \<Rightarrow> [] | Some t \<Rightarrow> filter (\<lambda>c. \<not> control_class c) t)"

section \<open>Text normalizer\<close>

text \<open>
  \<^verbatim>\<open>re.sub(r"(\w)-\n(\w)", r"\1\2", txt)\<close>: the pattern has a fixed length of four
  characters; the scan goes left to right, and after a match it resumes behind the
  matched text, so the second word character of a match is never the first of another.
\<close>

fun dehyphenate :: "unicode_tables \<Rightarrow> utext \<Rightarrow> utext" where
  "dehyphenate U (a # h # n # b # rest) =
     (if is_word U a \<and> h = HYPHEN \<and> n = NL \<and> is_word U b
      then a # b # dehyphenate U rest
      else a # dehyphenate U (h # n # b # rest))"
| "dehyphenate U s = s"

text \<open>
  \<^verbatim>\<open>re.sub(r"\n{3,}", "\n\n", txt)\<close>: the quantifier is greedy, so a match is a
  whole run of three or more newlines.
\<close>

function collapse_newlines :: "utext \<Rightarrow> utext" where
  "collapse_newlines [] = []"
| "collapse_newlines (c # cs) =
     (if 3 \<le> length (takeWhile (\<lambda>x. x = NL) (c # cs))
      then NL # NL # collapse_newlines (dropWhile (\<lambda>x. x = NL) cs)
      else c # collapse_newlines cs)"
  by pat_completeness auto
termination
  by (relation "measure length") (auto simp: length_dropWhile_le less_Suc_eq_le)

definition normalize_text :: "unicode_tables \<Rightarrow> utext \<Rightarrow> utext" where
  "normalize_text U txt =
     (if txt = [] then []
      else strip (collapse_newlines (dehyphenate U (filter (\<lambda>c. c \<noteq> CR) txt))))"

section \<open>Index pages and result links\<close>

text \<open>
  An anchor of a parsed page: the value of its \<^verbatim>\<open>href\<close> attribute, if it has one,
  and what \<^verbatim>\<open>get_text(strip=True)\<close> returns for it. A parsed page (the tree
  BeautifulSoup builds) is represented by what the program reads from it.
\<close>

record anchor =
  href :: "utext option"
  anchor_text :: utext

fun contains :: "utext \<Rightarrow> utext \<Rightarrow> bool" where
  "contains sub [] = (sub = [])"
| "contains sub (c # cs) = (take (length sub) (c # cs) = sub \<or> contains sub cs)"

definition startswith :: "utext \<Rightarrow> utext \<Rightarrow> bool" where
  "startswith s p = (take (length p) s = p)"

definition origin :: utext where
  "origin = str ''https://www.gao.gov''"

definition products :: utext where
  "products = str ''/products/''"

text \<open>The CSS selector \<^verbatim>\<open>a[href*='/products/']\<close> over the anchors of the main region.\<close>

definition select_products :: "anchor list \<Rightarrow> anchor list" where
  "select_products as =
     filter (\<lambda>a. case href a of None \<Rightarrow> False | Some h \<Rightarrow> contains products h) as"

text \<open>
  The loop of \<^verbatim>\<open>collect_result_links_from_page\<close>, with its two accumulators. The
  membership test reads \<^verbatim>\<open>href\<close> as the attribute gives it; \<^verbatim>\<open>seen.add(href)\<close>
  runs after \<^verbatim>\<open>href\<close> has been reassigned, so it stores the absolute form.
\<close>

fun collect_loop :: "anchor list \<Rightarrow> utext list \<Rightarrow> utext set \<Rightarrow> utext list" where
  "collect_loop [] links seen = links"
| "collect_loop (a # as) links seen =
     (let h = (case href a of None \<Rightarrow> [] | Some v \<Rightarrow> v);
          title = anchor_text a
      in if h \<noteq> [] \<and> contains products h \<and> title \<noteq> [] \<and> h \<notin> seen
         then (let h' = (if startswith h (str ''/'') then origin @ h else h)
               in collect_loop as (links @ [h']) (insert h' seen))
         else collect_loop as links seen)"

definition collect_result_links_from_page :: "anchor list \<Rightarrow> utext list" where
  "collect_result_links_from_page main_anchors =
     collect_loop (select_products main_anchors) [] {}"

section \<open>Regular expressions\<close>

text \<open>
  A pattern is modelled by a backtracking matcher: given the text from the current
  position on, it returns what is left behind each way of matching, in the order in
  which Python's engine tries them (greedy quantifiers try the longest repetition
  first, an alternation tries its branches from left to right). The match Python
  reports is the first one of the list.
\<close>

type_synonym matcher = "utext \<Rightarrow> utext list"

definition m_char :: "(nat \<Rightarrow> bool) \<Rightarrow> matcher" where
  "m_char P xs = (case xs of [] \<Rightarrow> [] | c # cs \<Rightarrow> if P c then [cs] else [])"

definition m_lit :: "utext \<Rightarrow> matcher" where
  "m_lit l xs = (if startswith xs l then [drop (length l) xs] else [])"

definition m_seq :: "matcher \<Rightarrow> matcher \<Rightarrow> matcher" where
  "m_seq a b xs = concat (map b (a xs))"

definition m_alts :: "matcher list \<Rightarrow> matcher" where
  "m_alts ms xs = concat (map (\<lambda>m. m xs) ms)"

definition m_opt :: "matcher \<Rightarrow> matcher" where
  "m_opt a xs = a xs @ [xs]"

text \<open>
  A greedy repetition \<^verbatim>\<open>{lo,hi}\<close> of a one-character class (\<open>hi = None\<close> for no
  upper bound). \<open>rep_tails\<close> lists what is left behind the longest run first, then one
  character less at a time down to no character at all; the repetition keeps those
  that stand for at least \<open>lo\<close> characters.
\<close>

fun rep_tails :: "(nat \<Rightarrow> bool) \<Rightarrow> nat option \<Rightarrow> utext \<Rightarrow> utext list" where
  "rep_tails P hi [] = [[]]"
| "rep_tails P hi (c # cs) =
     (if P c \<and> hi \<noteq> Some 0
      then rep_tails P (map_option (\<lambda>h. h - 1) hi) cs @ [c # cs]
      else [c # cs])"

definition m_rep :: "(nat \<Rightarrow> bool) \<Rightarrow> nat \<Rightarrow> nat option \<Rightarrow> matcher" where
  "m_rep P lo hi xs =
     (let tails = rep_tails P hi xs in take (length tails - lo) tails)"


text \<open>\<^verbatim>\<open>$\<close> under \<^verbatim>\<open>(?m)\<close>: at the end of the text or in front of a newline.\<close>

definition m_eol :: matcher where
  "m_eol xs = (case xs of [] \<Rightarrow> [xs] | c # cs \<Rightarrow> if c = NL then [xs] else [])"

text \<open>
  \<^verbatim>\<open>^\<close> under \<^verbatim>\<open>(?m)\<close>: at the start of the text or behind a newline. The scans
  below carry the character in front of the current position.
\<close>

definition at_bol :: "nat option \<Rightarrow> bool" where
  "at_bol prev = (case prev of None \<Rightarrow> True | Some c \<Rightarrow> c = NL)"

text \<open>
  \<^verbatim>\<open>re.search\<close> of a pattern \<^verbatim>\<open>(?m)^...\<close>: the start of the first match.
\<close>

fun search_ml :: "matcher \<Rightarrow> nat option \<Rightarrow> nat \<Rightarrow> utext \<Rightarrow> nat option" where
  "search_ml m prev pos [] = (if at_bol prev \<and> m [] \<noteq> [] then Some pos else None)"
| "search_ml m prev pos (c # cs) =
     (if at_bol prev \<and> m (c # cs) \<noteq> [] then Some pos
      else search_ml m (Some c) (Suc pos) cs)"

text \<open>
  \<^verbatim>\<open>re.finditer\<close> of a pattern \<^verbatim>\<open>(?m)^...\<close>: start, end and text of the
  successive matches. After a match the scan resumes at its end; the patterns of this
  program match at least one character (an empty match would be reported and the scan
  moved on by one character).
\<close>

function finditer_ml :: "matcher \<Rightarrow> nat option \<Rightarrow> nat \<Rightarrow> utext \<Rightarrow> (nat \<times> nat \<times> utext) list" where
  "finditer_ml m prev pos xs =
     (case (if at_bol prev then m xs else []) of
        [] \<Rightarrow> (case xs of [] \<Rightarrow> [] | c # cs \<Rightarrow> finditer_ml m (Some c) (Suc pos) cs)
      | r # _ \<Rightarrow>
          (let n = length xs - length r
           in if n = 0
              then (pos, pos, []) #
                   (case xs of [] \<Rightarrow> [] | c # cs \<Rightarrow> finditer_ml m (Some c) (Suc pos) cs)
              else (pos, pos + n, take n xs) #
                   finditer_ml m (Some (xs ! (n - 1))) (pos + n) (drop n xs)))"
  by pat_completeness auto
termination
  by (relation "measure (\<lambda>(m, prev, pos, xs). length xs)") auto

text \<open>
  A pattern \<^verbatim>\<open>(?m)^...\<close> matches at position \<open>q\<close> of a text: \<open>q\<close> is the start of a
  line and the matcher succeeds on the text from \<open>q\<close> on.
\<close>

definition match_at :: "matcher \<Rightarrow> utext \<Rightarrow> nat \<Rightarrow> bool" where
  "match_at m xs q = (q \<le> length xs \<and> (q = 0 \<or> xs ! (q - 1) = NL) \<and> m (drop q xs) \<noteq> [])"

section \<open>Section segmenter\<close>

definition KNOWN_ORDER :: "utext list" where
  "KNOWN_ORDER = map str [''DIGEST'', ''BACKGROUND'', ''DISCUSSION'', ''DECISION'',
     ''CONCLUSION'', ''RECOMMENDATION'', ''CONCLUSIONS'', ''RECOMMENDATIONS'']"

text \<open>
  \<^verbatim>\<open>CAPS_LINE = (?m)^(?P<cap>[A-Z0-9][A-Z0-9\s\u2019'()/\-,.:;]{3,40})$\<close>. The second
  class holds the whitespace characters, the newline among them; \<^verbatim>\<open>\u2019\<close> stands
  for the right single quotation mark of the source (code point 8217).
\<close>

definition caps_first :: "nat \<Rightarrow> bool" where
  "caps_first c = (ascii_upper c \<or> ascii_digit c)"

definition caps_rest :: "nat \<Rightarrow> bool" where
  "caps_rest c =
     (ascii_upper c \<or> ascii_digit c \<or> is_space c \<or> c = 8217 \<or> c = 39 \<or> c = 40 \<or>
      c = 41 \<or> c = 47 \<or> c = 45 \<or> c = 44 \<or> c = 46 \<or> c = 58 \<or> c = 59)"

definition CAPS_LINE :: matcher where
  "CAPS_LINE = m_seq (m_char caps_first) (m_seq (m_rep caps_rest 3 (Some 40)) m_eol)"

text \<open>\<^verbatim>\<open>(?m)^{re.escape(h)}\s*$\<close> and \<^verbatim>\<open>(?m)^(h1|h2|...)\s*$\<close>.\<close>

definition heading_rx :: "utext list \<Rightarrow> matcher" where
  "heading_rx hs = m_seq (m_alts (map m_lit hs)) (m_seq (m_rep is_space 0 None) m_eol)"

text \<open>
  A \<^verbatim>\<open>dict\<close> keeps its keys in the order of their first insertion:
  \<^verbatim>\<open>d[k] = v\<close> replaces the value of a key in place or appends the key, and
  \<^verbatim>\<open>d.setdefault(k, v)\<close> leaves a key that is present alone.
\<close>

fun dict_set :: "'k \<Rightarrow> 'v \<Rightarrow> ('k \<times> 'v) list \<Rightarrow> ('k \<times> 'v) list" where
  "dict_set k v [] = [(k, v)]"
| "dict_set k v ((k', v') # d) = (if k' = k then (k, v) # d else (k', v') # dict_set k v d)"

fun setdefault :: "'k \<Rightarrow> 'v \<Rightarrow> ('k \<times> 'v) list \<Rightarrow> ('k \<times> 'v) list" where
  "setdefault k v [] = [(k, v)]"
| "setdefault k v ((k', v') # d) =
     (if k' = k then (k', v') # d else (k', v') # setdefault k v d)"

definition artifact :: utext where
  "artifact = str ''U N I T E D  S T A T E S''"

text \<open>The first loop of \<^verbatim>\<open>split_sections\<close>: the known headings, in their fixed order.\<close>

definition known_positions :: "utext \<Rightarrow> (utext \<times> nat) list" where
  "known_positions ft =
     fold (\<lambda>h d. case search_ml (heading_rx [h]) None 0 ft of
                    None \<Rightarrow> d | Some p \<Rightarrow> dict_set h p d)
          KNOWN_ORDER []"

text \<open>
  The second loop: the matches of \<^verbatim>\<open>CAPS_LINE\<close> that pass the test
  \<^verbatim>\<open>cap.upper() == cap and cap not in (...)\<close>, each with its trimmed text and start.
\<close>

definition caps_candidates :: "unicode_tables \<Rightarrow> utext \<Rightarrow> (utext \<times> nat) list" where
  "caps_candidates U ft =
     map (\<lambda>(st, en, g). (strip g, st))
       (filter (\<lambda>(st, en, g). upper U (strip g) = strip g \<and> strip g \<noteq> artifact)
          (finditer_ml CAPS_LINE None 0 ft))"

definition found_positions :: "unicode_tables \<Rightarrow> utext \<Rightarrow> (utext \<times> nat) list" where
  "found_positions U ft =
     fold (\<lambda>(cap, p) d. setdefault cap p d) (caps_candidates U ft) (known_positions ft)"

definition slice :: "utext \<Rightarrow> nat \<Rightarrow> nat \<Rightarrow> utext" where
  "slice s a b = drop a (take b s)"

definition marks :: "utext list \<Rightarrow> utext \<Rightarrow> (utext \<times> nat \<times> nat) list" where
  "marks ordered ft =
     map (\<lambda>(st, en, g). (strip g, st, en)) (finditer_ml (heading_rx ordered) None 0 ft)"

text \<open>The body of each mark: from its end to the start of the next one, trimmed.\<close>

fun section_bodies :: "utext \<Rightarrow> (utext \<times> nat \<times> nat) list \<Rightarrow> (utext \<times> utext) list" where
  "section_bodies ft [] = []"
| "section_bodies ft [(name, st, en)] = [(name, strip (slice ft en (length ft)))]"
| "section_bodies ft ((name, st, en) # (name', st', en') # rest) =
     (name, strip (slice ft en st')) # section_bodies ft ((name', st', en') # rest)"

definition ordered_headings :: "(utext \<times> nat) list \<Rightarrow> utext list" where
  "ordered_headings fp = map fst (sort_key snd fp)"

definition split_sections :: "unicode_tables \<Rightarrow> utext \<Rightarrow> (utext \<times> utext) list" where
  "split_sections U full_text =
     (let ft = normalize_text U full_text
      in if ft = [] then []
         else (let fp = found_positions U ft
               in if fp = [] then [(str ''Full Report Text'', ft)]
                  else fold (\<lambda>(name, body) out. dict_set name body out)
                         (section_bodies ft (marks (ordered_headings fp) ft)) []))"

section \<open>Boilerplate suppression\<close>

text \<open>\<^verbatim>\<open>txt.split("\n")\<close> and \<^verbatim>\<open>"\n".join(kept)\<close>.\<close>

fun split_nl :: "utext \<Rightarrow> utext list" where
  "split_nl [] = [[]]"
| "split_nl (c # cs) =
     (if c = NL then [] # split_nl cs
      else (case split_nl cs of [] \<Rightarrow> [[c]] | l # ls \<Rightarrow> (c # l) # ls))"

fun join_nl :: "utext list \<Rightarrow> utext" where
  "join_nl [] = []"
| "join_nl [l] = l"
| "join_nl (l # l' # ls) = l @ NL # join_nl (l' # ls)"

text \<open>
  Matching under \<^verbatim>\<open>re.IGNORECASE\<close>: a cased pattern character matches a text
  character whose simple lowercase is the lowercase of the pattern character, or one of
  the extra equivalents the engine knows for it (dotless i for \<^verbatim>\<open>i\<close>, long s for
  \<^verbatim>\<open>s\<close>); an uncased pattern character matches itself only. The pattern characters
  of this program are ASCII.
\<close>

definition sre_lower :: "unicode_tables \<Rightarrow> nat \<Rightarrow> nat" where
  "sre_lower U c = (if c < 128 then (if ascii_upper c then c + 32 else c) else u_lower U c)"

definition ci_match :: "unicode_tables \<Rightarrow> nat \<Rightarrow> nat \<Rightarrow> bool" where
  "ci_match U p c =
     (if ascii_upper p \<or> ascii_lower p
      then (let lo = (if ascii_upper p then p + 32 else p); lc = sre_lower U c
            in lc = lo \<or> (lo = 105 \<and> lc = 305) \<or> (lo = 115 \<and> lc = 383))
      else c = p)"

definition m_lit_ci :: "unicode_tables \<Rightarrow> utext \<Rightarrow> matcher" where
  "m_lit_ci U l xs =
     (if length l \<le> length xs \<and> list_all2 (ci_match U) l (take (length l) xs)
      then [drop (length l) xs] else [])"

text \<open>
  A literal followed by \<^verbatim>\<open>\b\<close>: behind the literal, exactly one of the character
  just matched and the character that comes next (if any) is a word character.
\<close>

definition m_lit_ci_b :: "unicode_tables \<Rightarrow> utext \<Rightarrow> matcher" where
  "m_lit_ci_b U l xs =
     (case m_lit_ci U l xs of
        [] \<Rightarrow> []
      | r # _ \<Rightarrow>
          (let before = (l \<noteq> [] \<and> is_word U (xs ! (length l - 1)));
               after = (case r of [] \<Rightarrow> False | c # _ \<Rightarrow> is_word U c)
           in if before \<noteq> after then [r] else []))"

text \<open>\<^verbatim>\<open>$\<close> without \<^verbatim>\<open>(?m)\<close>: at the end, or in front of a newline that ends the text.\<close>

definition m_end :: matcher where
  "m_end xs = (if xs = [] \<or> xs = [NL] then [xs] else [])"

definition m_seqs :: "matcher list \<Rightarrow> matcher" where
  "m_seqs ms = foldr m_seq ms (\<lambda>xs. [xs])"

definition not_nl :: "nat \<Rightarrow> bool" where
  "not_nl c = (c \<noteq> NL)"

text \<open>
  The nine \<^verbatim>\<open>drop_patterns\<close>, in the order of the source (the ninth is itself an
  alternation of three). Each starts with \<^verbatim>\<open>^\<close>, which without \<^verbatim>\<open>(?m)\<close> holds at
  the start of the line only, so \<^verbatim>\<open>drop_rx.search(l)\<close> succeeds exactly when one of
  them matches from the start. 8211 is the en dash.
\<close>

definition drop_patterns :: "unicode_tables \<Rightarrow> matcher list" where
  "drop_patterns U =
     [m_seqs [m_lit_ci U (str ''441 G St. N.W.''), m_end],
      m_seqs [m_lit_ci_b U (str ''Washington, DC''), m_rep not_nl 0 None, m_end],
      m_seqs [m_lit_ci_b U (str ''Comptroller General''), m_rep not_nl 0 None, m_end],
      m_seqs [m_lit_ci U (str ''of the United States''), m_end],
      m_seqs [m_lit_ci U (str ''U''), m_opt (m_lit (str ''.'')), m_lit_ci U (str ''S''),
              m_opt (m_lit (str ''.'')),
              m_lit_ci U (str '' Government Accountability Office''), m_end],
      m_seqs [m_lit_ci U (str ''www.gao.gov''), m_end],
      m_seqs [m_lit_ci U (str ''Page''), m_rep is_space 1 None, m_rep (is_digit U) 1 None,
              m_rep is_space 0 None, m_end],
      m_seqs [m_lit_ci U (str ''B-''), m_rep (is_digit U) 4 (Some 7),
              m_opt (m_seqs [m_lit (str ''.''), m_rep (is_digit U) 1 None]),
              m_rep is_space 0 None, m_end],
      m_seqs [m_rep is_space 0 None, m_rep (\<lambda>c. c = 126) 1 None, m_rep is_space 0 None,
              m_end],
      m_seqs [m_rep is_space 0 None, m_rep (\<lambda>c. c = 8211) 1 None, m_rep is_space 0 None,
              m_end],
      m_seqs [m_rep is_space 0 None, m_rep (\<lambda>c. c = HYPHEN) 2 None,
              m_rep is_space 0 None, m_end]]"

definition drop_rx_search :: "unicode_tables \<Rightarrow> utext \<Rightarrow> bool" where
  "drop_rx_search U l = (m_alts (drop_patterns U) l \<noteq> [])"

text \<open>
  \<^verbatim>\<open>re.sub(pattern, repl, s)\<close> for a fixed replacement: the matches are replaced
  from left to right, the scan resuming behind each match.
\<close>

function re_sub :: "matcher \<Rightarrow> utext \<Rightarrow> utext \<Rightarrow> utext" where
  "re_sub m repl xs =
     (case m xs of
        [] \<Rightarrow> (case xs of [] \<Rightarrow> [] | c # cs \<Rightarrow> c # re_sub m repl cs)
      | r # _ \<Rightarrow>
          (let n = length xs - length r
           in if n = 0
              then repl @ (case xs of [] \<Rightarrow> [] | c # cs \<Rightarrow> c # re_sub m repl cs)
              else repl @ re_sub m repl (drop n xs)))"
  by pat_completeness auto
termination
  by (relation "measure (\<lambda>(m, repl, xs). length xs)") auto

text \<open>\<^verbatim>\<open>\n\s*B-\d{4,7}(\.\d+)?\s*\n\<close> (case-sensitive).\<close>

definition docket_between_newlines :: "unicode_tables \<Rightarrow> matcher" where
  "docket_between_newlines U =
     m_seqs [m_lit [NL], m_rep is_space 0 None, m_lit (str ''B-''),
             m_rep (is_digit U) 4 (Some 7),
             m_opt (m_seqs [m_lit (str ''.''), m_rep (is_digit U) 1 None]),
             m_rep is_space 0 None, m_lit [NL]]"

definition kept_lines :: "unicode_tables \<Rightarrow> utext \<Rightarrow> utext list" where
  "kept_lines U txt = filter (\<lambda>l. \<not> drop_rx_search U l) (map rstrip (split_nl txt))"

definition clean_report_text :: "unicode_tables \<Rightarrow> utext \<Rightarrow> utext" where
  "clean_report_text U txt =
     (if txt = [] then []
      else normalize_text U (re_sub (docket_between_newlines U) [NL] (join_nl (kept_lines U txt))))"

section \<open>The world outside the program\<close>

text \<open>
  A parsed page (the tree BeautifulSoup builds from a response body) is represented by
  what the program reads from it: the anchors of its main region, the anchor
  \<^verbatim>\<open>get_next_page\<close> finds (if any), and what \<^verbatim>\<open>get_title_file_date_from_doc\<close> and
  \<^verbatim>\<open>extract_expanded_decision_text\<close> return for it.
\<close>

record soup =
  main_anchors :: "anchor list"
  next_anchor :: "anchor option"
  doc_title :: utext
  doc_file_no :: utext
  doc_date :: utext
  doc_raw :: utext

record response =
  status_code :: nat
  parsed :: soup
  set_cookies :: "(utext \<times> utext) list"

text \<open>
  An HTTP request either returns a response or raises a transport exception. A write to
  a file succeeds, raises \<^verbatim>\<open>PermissionError\<close> (the file is open elsewhere) or raises
  some other exception.
\<close>

datatype outcome = Responds response | Fails

datatype write_outcome = Written | Locked | Broken

datatype exn = RequestException | PermissionError | OtherException | StopIteration

record decision_record =
  url :: utext
  title :: utext
  file_number :: utext
  date :: utext
  pdf_pages :: "nat option"
  full_text :: utext
  sections :: "(utext \<times> utext) list"

text \<open>
  The content of an output file is represented by the records it was written from (the
  serializers themselves are not modelled).
\<close>

datatype out_file = CsvFile "decision_record list" | Workbook "decision_record list"

datatype log_entry =
    WarnStatus utext nat
  | WarnAfterRebuild utext nat
  | WarnRequestFailed utext
  | WarnSkippingPage utext
  | InfoNoLinks
  | InfoUptoReached int
  | WarnExcelLocked
  | WarnFinalLocked
  | WarnInterrupted
  | WarnUnexpected

text \<open>
  The world is scripted: \<open>net\<close> holds the outcomes of the HTTP requests still to come,
  in the order in which they will be made (when the script has run out, a request
  fails), \<open>picks\<close> the coming results of \<^verbatim>\<open>random.choice\<close>, \<open>disk\<close> the outcomes of
  the coming file writes (when it has run out, a write succeeds). \<open>requested\<close> records
  every request made, with the headers given to it, \<open>files\<close> the files written and
  \<open>logged\<close> the messages printed. Every run of the program on a network that answers
  finitely often is the run on some such script. Sleeping changes nothing that is
  modelled.
\<close>

record world =
  net :: "outcome list"
  picks :: "nat list"
  disk :: "write_outcome list"
  requested :: "(utext \<times> (utext \<times> utext) list) list"
  files :: "(utext \<times> out_file) list"
  logged :: "log_entry list"

record session =
  headers :: "(utext \<times> utext) list"
  cookies :: "(utext \<times> utext) list"

definition print_log :: "log_entry \<Rightarrow> world \<Rightarrow> world" where
  "print_log e w = w\<lparr>logged := logged w @ [e]\<rparr>"

text \<open>\<^verbatim>\<open>d.update(other)\<close>.\<close>

definition dict_update :: "('k \<times> 'v) list \<Rightarrow> ('k \<times> 'v) list \<Rightarrow> ('k \<times> 'v) list" where
  "dict_update d other = fold (\<lambda>(k, v) d. dict_set k v d) other d"

section \<open>Acquisition layer\<close>

definition UAS :: "utext list" where
  "UAS = map str
     [''Mozilla/5.0 (Windows NT 10.0; Win64; x64) AppleWebKit/537.36 (KHTML, like Gecko) Chrome/122.0.0.0 Safari/537.36'',
      ''Mozilla/5.0 (Windows NT 10.0; Win64; x64; rv:121.0) Gecko/20100101 Firefox/121.0'',
      ''Mozilla/5.0 (Macintosh; Intel Mac OS X 13_6) AppleWebKit/605.1.15 (KHTML, like Gecko) Version/17.2 Safari/605.1.15'',
      ''Mozilla/5.0 (X11; Linux x86_64) AppleWebKit/537.36 (KHTML, like Gecko) Chrome/121.0.6167.85 Safari/537.36'']"

definition rand_ua :: "world \<Rightarrow> utext \<times> world" where
  "rand_ua w =
     (case picks w of
        [] \<Rightarrow> (UAS ! 0, w)
      | k # ks \<Rightarrow> (UAS ! (k mod length UAS), w\<lparr>picks := ks\<rparr>))"

text \<open>
  \<^verbatim>\<open>session.get(url, headers=hdrs)\<close>: the next outcome of the script; the cookies a
  response sets are kept by the session.
\<close>

definition session_get ::
  "session \<Rightarrow> utext \<Rightarrow> (utext \<times> utext) list \<Rightarrow> world \<Rightarrow> (exn + response) \<times> session \<times> world" where
  "session_get s u hdrs w =
     (let w' = w\<lparr>net := tl (net w), requested := requested w @ [(u, hdrs)]\<rparr>
      in case net w of
           [] \<Rightarrow> (Inl RequestException, s, w')
         | Fails # _ \<Rightarrow> (Inl RequestException, s, w')
         | Responds r # _ \<Rightarrow>
             (Inr r, s\<lparr>cookies := dict_update (cookies s) (set_cookies r)\<rparr>, w'))"

text \<open>
  \<^verbatim>\<open>build_session\<close>: a new client (which of the two client libraries provides it
  makes no difference to what is modelled), a random identity, the fixed headers, and
  two warm-up requests whose results and exceptions are ignored.
\<close>

definition build_session :: "world \<Rightarrow> session \<times> world" where
  "build_session w =
     (let (ua, w1) = rand_ua w;
          s0 = \<lparr>headers = dict_update []
                  [(str ''User-Agent'', ua),
                   (str ''Accept'',
                    str ''text/html,application/xhtml+xml,application/xml;q=0.9,*/*;q=0.8''),
                   (str ''Accept-Language'', str ''en-US,en;q=0.9''),
                   (str ''Accept-Encoding'', str ''gzip, deflate, br''),
                   (str ''Connection'', str ''keep-alive''),
                   (str ''Upgrade-Insecure-Requests'', str ''1''),
                   (str ''Sec-Fetch-Dest'', str ''document''),
                   (str ''Sec-Fetch-Mode'', str ''navigate''),
                   (str ''Sec-Fetch-Site'', str ''same-origin''),
                   (str ''Sec-Fetch-User'', str ''?1'')],
                cookies = []\<rparr>;
          (r1, s1, w2) = session_get s0 (str ''https://www.gao.gov/'') [] w1;
          (r2, s2, w3) = session_get s1 (str ''https://www.gao.gov/search'') [] w2
      in (s2, w3))"

text \<open>The inner \<^verbatim>\<open>_fetch\<close> of \<^verbatim>\<open>get_html\<close>.\<close>

definition fetch :: "session \<Rightarrow> utext \<Rightarrow> world \<Rightarrow> (exn + response) \<times> session \<times> world" where
  "fetch s u w =
     session_get s u
       (if contains (str ''/search'') u
        then [(str ''Referer'', str ''https://www.gao.gov/'')]
        else if contains products u
        then [(str ''Referer'', str ''https://www.gao.gov/search'')]
        else [])
       w"

text \<open>
  The body of the \<^verbatim>\<open>try\<close> block of \<^verbatim>\<open>get_html\<close>: \<open>Inl\<close> is an exception raised
  in it, with the session and the world as they are at that moment.
\<close>

definition get_html_try ::
  "session \<Rightarrow> utext \<Rightarrow> world \<Rightarrow> (exn + soup option) \<times> session \<times> world" where
  "get_html_try s u w =
     (case fetch s u w of
        (Inl e, s1, w1) \<Rightarrow> (Inl e, s1, w1)
      | (Inr r, s1, w1) \<Rightarrow>
          if status_code r = 200 then (Inr (Some (parsed r)), s1, w1)
          else if status_code r = 403 then
            (let (ua, w2) = rand_ua w1;
                 s2 = s1\<lparr>headers := dict_set (str ''User-Agent'') ua (headers s1)\<rparr>
             in case fetch s2 u w2 of
                  (Inl e, s3, w3) \<Rightarrow> (Inl e, s3, w3)
                | (Inr r2, s3, w3) \<Rightarrow>
                    if status_code r2 = 200 then (Inr (Some (parsed r2)), s3, w3)
                    else
                      (let (new_session, w4) = build_session w3
                       in case session_get new_session u [] w4 of
                            (Inl e, n5, w5) \<Rightarrow> (Inl e, s3, w5)
                          | (Inr r3, n5, w5) \<Rightarrow>
                              if status_code r3 = 200
                              then (Inr (Some (parsed r3)),
                                    s3\<lparr>cookies := cookies n5,
                                       headers := dict_update (headers s3) (headers n5)\<rparr>,
                                    w5)
                              else (Inr None, s3,
                                    print_log (WarnAfterRebuild u (status_code r3)) w5)))
          else (Inr None, s1, print_log (WarnStatus u (status_code r)) w1))"

text \<open>
  \<^verbatim>\<open>get_html\<close>: the \<^verbatim>\<open>except Exception\<close> clause turns every exception of the body
  into a warning and the result \<^verbatim>\<open>None\<close>. The result is a sum so that raising is a
  possible value of the type.
\<close>

definition get_html ::
  "session \<Rightarrow> utext \<Rightarrow> world \<Rightarrow> (exn + soup option) \<times> session \<times> world" where
  "get_html s u w =
     (case get_html_try s u w of
        (Inl e, s', w') \<Rightarrow> (Inr None, s', print_log (WarnRequestFailed u) w')
      | (Inr d, s', w') \<Rightarrow> (Inr d, s', w'))"

definition get_next_page :: "soup \<Rightarrow> utext option" where
  "get_next_page sp =
     (case next_anchor sp of
        None \<Rightarrow> None
      | Some a \<Rightarrow>
          (let h = (case href a of None \<Rightarrow> [] | Some v \<Rightarrow> v)
           in if h = [] then None
              else Some (if startswith h (str ''/'') then origin @ h else h)))"

section \<open>Pipeline driver\<close>

definition scrape_item_with_bs ::
  "unicode_tables \<Rightarrow> session \<Rightarrow> utext \<Rightarrow> world \<Rightarrow> (exn + decision_record) \<times> session \<times> world" where
  "scrape_item_with_bs U s u w =
     (case get_html s u w of
        (Inl e, s', w') \<Rightarrow> (Inl e, s', w')
      | (Inr None, s', w') \<Rightarrow>
          (Inr \<lparr>url = u, title = [], file_number = [], date = [], pdf_pages = None,
                full_text = [], sections = []\<rparr>, s', w')
      | (Inr (Some sp), s', w') \<Rightarrow>
          (let cleaned = clean_report_text U (doc_raw sp);
               secs = split_sections U cleaned
           in (Inr \<lparr>url = u, title = doc_title sp, file_number = doc_file_no sp,
                    date = doc_date sp, pdf_pages = None,
                    full_text = normalize_text U cleaned, sections = secs\<rparr>, s', w')))"

text \<open>One write of a file: the next outcome of the \<open>disk\<close> script.\<close>

definition disk_write :: "utext \<Rightarrow> out_file \<Rightarrow> world \<Rightarrow> exn option \<times> world" where
  "disk_write path content w =
     (case disk w of
        [] \<Rightarrow> (None, w\<lparr>files := dict_set path content (files w)\<rparr>)
      | Written # ds \<Rightarrow> (None, w\<lparr>disk := ds, files := dict_set path content (files w)\<rparr>)
      | Locked # ds \<Rightarrow> (Some PermissionError, w\<lparr>disk := ds\<rparr>)
      | Broken # ds \<Rightarrow> (Some OtherException, w\<lparr>disk := ds\<rparr>))"

text \<open>
  \<^verbatim>\<open>write_outputs\<close>: the CSV file first, then the workbook \<^verbatim>\<open>if out_xlsx\<close>.
\<close>

definition write_outputs ::
  "decision_record list \<Rightarrow> utext \<Rightarrow> utext \<Rightarrow> world \<Rightarrow> exn option \<times> world" where
  "write_outputs records out_csv out_xlsx w =
     (case disk_write out_csv (CsvFile records) w of
        (Some e, w1) \<Rightarrow> (Some e, w1)
      | (None, w1) \<Rightarrow>
          if out_xlsx \<noteq> [] then disk_write out_xlsx (Workbook records) w1 else (None, w1))"

text \<open>\<^verbatim>\<open>os.path.splitext\<close> and the name of the fallback workbook.\<close>

definition rfind :: "nat \<Rightarrow> utext \<Rightarrow> int" where
  "rfind c p =
     (let n = length (takeWhile (\<lambda>x. x \<noteq> c) (rev p))
      in if n = length p then - 1 else int (length p) - 1 - int n)"

definition splitext :: "utext \<Rightarrow> utext \<times> utext" where
  "splitext p =
     (let sepIndex = rfind 47 p; dotIndex = rfind 46 p
      in if sepIndex < dotIndex \<and>
            list_ex (\<lambda>x. x \<noteq> 46) (take (nat (dotIndex - sepIndex - 1)) (drop (nat (sepIndex + 1)) p))
         then (take (nat dotIndex) p, drop (nat dotIndex) p)
         else (p, []))"

definition partial_path :: "utext \<Rightarrow> utext" where
  "partial_path out_xlsx = (case splitext out_xlsx of (base, ext) \<Rightarrow> base @ str ''_partial'' @ ext)"

text \<open>
  \<^verbatim>\<open>try: write_outputs(...) except PermissionError: ... write_outputs(..., partial)\<close>,
  as it stands in the loop and in the \<^verbatim>\<open>finally\<close> clause (the two differ in the
  warning they print).
\<close>

definition flush ::
  "log_entry \<Rightarrow> decision_record list \<Rightarrow> utext \<Rightarrow> utext \<Rightarrow> world \<Rightarrow> exn option \<times> world" where
  "flush warning records out_csv out_xlsx w =
     (case write_outputs records out_csv out_xlsx w of
        (Some PermissionError, w1) \<Rightarrow>
          write_outputs records out_csv (partial_path out_xlsx) (print_log warning w1)
      | (r, w1) \<Rightarrow> (r, w1))"

text \<open>
  The state of the driver: the session, the records, the counter and the world. The
  body of the \<^verbatim>\<open>for\<close> loop behind the budget check, and the loop itself; \<open>Some e\<close>
  is an exception that leaves the loop.
\<close>

type_synonym driver_state = "session \<times> decision_record list \<times> nat \<times> world"

definition process_one ::
  "unicode_tables \<Rightarrow> utext \<Rightarrow> utext \<Rightarrow> utext \<Rightarrow> driver_state \<Rightarrow> exn option \<times> driver_state" where
  "process_one U u out_csv out_xlsx st =
     (case st of (s, records, processed, w) \<Rightarrow>
        (case scrape_item_with_bs U s u w of
           (Inl e, s1, w1) \<Rightarrow> (Some e, (s1, records, processed, w1))
         | (Inr rec, s1, w1) \<Rightarrow>
             (case flush WarnExcelLocked (records @ [rec]) out_csv out_xlsx w1 of
                (r, w2) \<Rightarrow> (r, (s1, records @ [rec], processed + 1, w2)))))"

fun process_links ::
  "unicode_tables \<Rightarrow> utext list \<Rightarrow> utext \<Rightarrow> utext \<Rightarrow> int \<Rightarrow> driver_state \<Rightarrow> exn option \<times> driver_state" where
  "process_links U [] out_csv out_xlsx up_to st = (None, st)"
| "process_links U (u # links) out_csv out_xlsx up_to (s, records, processed, w) =
     (if up_to \<noteq> 0 \<and> up_to \<le> int processed
      then (Some StopIteration, (s, records, processed, print_log (InfoUptoReached up_to) w))
      else (case process_one U u out_csv out_xlsx (s, records, processed, w) of
              (Some e, st') \<Rightarrow> (Some e, st')
            | (None, st') \<Rightarrow> process_links U links out_csv out_xlsx up_to st'))"

text \<open>
  The \<^verbatim>\<open>while page_url\<close> loop. Every turn that goes on to another page has received
  a response, so the turns are bounded by the length of the script; the loop is
  written with that bound as fuel, and \<open>OutOfFuel\<close> marks a loop cut short by it.
\<close>

datatype ending = Finished | Raised exn | OutOfFuel

fun crawl ::
  "nat \<Rightarrow> unicode_tables \<Rightarrow> utext \<Rightarrow> utext \<Rightarrow> int \<Rightarrow> int \<Rightarrow> utext \<Rightarrow> int \<Rightarrow> driver_state \<Rightarrow>
   ending \<times> driver_state" where
  "crawl 0 U out_csv out_xlsx max_pages up_to page_url page_num st = (OutOfFuel, st)"
| "crawl (Suc fuel) U out_csv out_xlsx max_pages up_to page_url page_num (s, records, processed, w) =
     (if page_url = [] then (Finished, (s, records, processed, w))
      else (case get_html s page_url w of
              (Inl e, s1, w1) \<Rightarrow> (Raised e, (s1, records, processed, w1))
            | (Inr None, s1, w1) \<Rightarrow>
                (Finished, (s1, records, processed, print_log (WarnSkippingPage page_url) w1))
            | (Inr (Some sp), s1, w1) \<Rightarrow>
                (let links = collect_result_links_from_page (main_anchors sp)
                 in if links = []
                    then (Finished, (s1, records, processed, print_log InfoNoLinks w1))
                    else (case process_links U links out_csv out_xlsx up_to
                                 (s1, records, processed, w1) of
                            (Some e, st') \<Rightarrow> (Raised e, st')
                          | (None, st') \<Rightarrow>
                              if max_pages \<noteq> 0 \<and> max_pages < page_num + 1
                              then (Finished, st')
                              else (case get_next_page sp of
                                      None \<Rightarrow> (Finished, st')
                                    | Some nxt \<Rightarrow>
                                        crawl fuel U out_csv out_xlsx max_pages up_to nxt
                                          (page_num + 1) st')))))"

text \<open>
  \<^verbatim>\<open>run\<close>: the session, the loop, the \<^verbatim>\<open>except\<close> clauses (\<^verbatim>\<open>StopIteration\<close> passes
  silently, any other exception is reported) and the \<^verbatim>\<open>finally\<close> clause with the last
  flush. The result is the exception that leaves \<^verbatim>\<open>run\<close>, if any, how the loop
  ended, the records and the world.
\<close>

definition run ::
  "unicode_tables \<Rightarrow> utext \<Rightarrow> utext \<Rightarrow> utext \<Rightarrow> int \<Rightarrow> int \<Rightarrow> world \<Rightarrow>
   exn option \<times> ending \<times> decision_record list \<times> world" where
  "run U search_url out_csv out_xlsx max_pages up_to w =
     (case build_session w of (s, w0) \<Rightarrow>
        (case crawl (Suc (length (net w0))) U out_csv out_xlsx max_pages up_to search_url 1
                (s, [], 0, w0) of
           (e, (s1, records, processed, w1)) \<Rightarrow>
             (let w2 = (case e of
                          Raised StopIteration \<Rightarrow> w1
                        | Raised x \<Rightarrow> print_log WarnUnexpected w1
                        | _ \<Rightarrow> w1)
              in case flush WarnFinalLocked records out_csv out_xlsx w2 of
                   (r, w3) \<Rightarrow> (r, e, records, w3))))"

text \<open>
  Notions used to state the properties of the driver. \<open>evolves w w'\<close>: the world \<open>w'\<close>
  may come after \<open>w\<close> (the scripts only lose outcomes from the front). \<open>writes_ok w\<close>:
  no coming file write fails. \<open>failure_record u\<close>: the record \<^verbatim>\<open>scrape_item_with_bs\<close>
  returns when there is no document.
\<close>

definition evolves :: "world \<Rightarrow> world \<Rightarrow> bool" where
  "evolves w w' = ((\<exists>n. net w' = drop n (net w)) \<and> (\<exists>n. disk w' = drop n (disk w)))"

definition writes_ok :: "world \<Rightarrow> bool" where
  "writes_ok w = list_all (\<lambda>x. x = Written) (disk w)"

definition failure_record :: "utext \<Rightarrow> decision_record" where
  "failure_record u =
     \<lparr>url = u, title = [], file_number = [], date = [], pdf_pages = None,
      full_text = [], sections = []\<rparr>"

section \<open>Example values\<close>

text \<open>Pages, responses and a starting world for the concrete runs evaluated below.\<close>

definition blank_page :: soup where
  "blank_page =
     \<lparr>main_anchors = [], next_anchor = None, doc_title = [], doc_file_no = [],
      doc_date = [], doc_raw = []\<rparr>"

definition decision_page :: soup where
  "decision_page =
     blank_page\<lparr>doc_title := str ''Acme Corp.'', doc_file_no := str ''B-123456'',
                doc_date := str ''Jan 5, 2024'',
                doc_raw := str ''DIGEST\<newline>Protest denied.''\<rparr>"

definition answer :: "nat \<Rightarrow> soup \<Rightarrow> outcome" where
  "answer code page = Responds \<lparr>status_code = code, parsed = page, set_cookies = []\<rparr>"

definition world_with :: "outcome list \<Rightarrow> world" where
  "world_with script =
     \<lparr>net = script, picks = [], disk = [], requested = [], files = [], logged = []\<rparr>"

definition new_session :: session where
  "new_session = \<lparr>headers = [], cookies = []\<rparr>"



section \<open>Properties\<close>

declare finditer_ml.simps [simp del]
declare re_sub.simps [simp del]

lemmas char_defs = str_def NL_def CR_def HYPHEN_def ascii_digit_def ascii_upper_def
  ascii_lower_def is_word_def is_digit_def is_space_def upper_cp_def upper_def rstrip_def
  strip_def plain_tables_def

lemmas rx_defs = m_char_def m_lit_def m_seq_def m_alts_def m_opt_def m_rep_def m_eol_def
  at_bol_def startswith_def heading_rx_def CAPS_LINE_def caps_first_def caps_rest_def
  Let_def finditer_ml.simps m_lit_ci_def m_lit_ci_b_def m_end_def m_seqs_def not_nl_def
  ci_match_def sre_lower_def

subsection \<open>Sanitizers\<close>

lemma control_class_iff: "control_class c \<longleftrightarrow> c < 32 \<and> c \<noteq> 9 \<and> c \<noteq> 10 \<and> c \<noteq> 13"
  unfolding control_class_def by arith

text \<open>
  Claim C10. The two sanitizers agree on every input; \<open>None\<close> gives the empty string;
  on a string they delete the code points below 32 other than tab (9), line feed (10)
  and carriage return (13), and nothing else, so tabs and newlines stay where they are.
\<close>

theorem sanitizers_agree_and_strip_c0:
  "sanitize_for_json s = sanitize_for_excel s \<and>
   sanitize_for_excel None = [] \<and>
   sanitize_for_excel (Some t) = filter (\<lambda>c. 32 \<le> c \<or> c = 9 \<or> c = 10 \<or> c = 13) t"
proof -
  have "(\<lambda>c. \<not> control_class c) = (\<lambda>c. 32 \<le> c \<or> c = 9 \<or> c = 10 \<or> c = 13)"
    by (rule ext) (auto simp: control_class_iff)
  then show ?thesis
    by (simp add: sanitize_for_json_def sanitize_for_excel_def)
qed

theorem sanitizers_agree_and_strip_c0_witness:
  "sanitize_for_json (Some [65, 0, 9, 66, 27, 10, 13, 31, 11, 67]) =
     sanitize_for_excel (Some [65, 0, 9, 66, 27, 10, 13, 31, 11, 67]) \<and>
   sanitize_for_excel None = [] \<and>
   sanitize_for_excel (Some [65, 0, 9, 66, 27, 10, 13, 31, 11, 67]) = [65, 9, 66, 10, 13, 67]"
  using sanitizers_agree_and_strip_c0 [of "Some [65, 0, 9, 66, 27, 10, 13, 31, 11, 67]"
      "[65, 0, 9, 66, 27, 10, 13, 31, 11, 67]"]
  by simp

subsection \<open>Normalization\<close>

text \<open>
  Claim C1. On \<^verbatim>\<open>"a-\nb-\nc"\<close> one pass of \<open>normalize_text\<close> heals the first
  break only (the scan resumes behind \<^verbatim>\<open>b\<close>, which the first match has used up),
  and a second pass heals the other: the result of one pass is not a fixed point.
\<close>

theorem normalize_text_second_pass_differs:
  "normalize_text U (str ''a-\<newline>b-\<newline>c'') = str ''ab-\<newline>c'' \<and>
   normalize_text U (normalize_text U (str ''a-\<newline>b-\<newline>c'')) = str ''abc''"
  by (simp add: normalize_text_def str_def strip_def rstrip_def is_space_def is_word_def
      ascii_digit_def ascii_upper_def ascii_lower_def NL_def CR_def HYPHEN_def)

subsection \<open>Result links\<close>

text \<open>
  Claim C3. A page whose main region holds two anchors with the same relative
  \<^verbatim>\<open>href\<close> yields the same absolute URL twice: the second anchor's \<^verbatim>\<open>href\<close> is
  looked up in \<open>seen\<close> in its relative form, while \<open>seen\<close> holds the absolute one.
\<close>

theorem collect_result_links_duplicate:
  "collect_result_links_from_page
     [\<lparr>href = Some (str ''/products/b-1''), anchor_text = str ''A''\<rparr>,
      \<lparr>href = Some (str ''/products/b-1''), anchor_text = str ''A''\<rparr>]
   = [str ''https://www.gao.gov/products/b-1'', str ''https://www.gao.gov/products/b-1'']"
  by (simp add: collect_result_links_from_page_def select_products_def products_def
      origin_def startswith_def str_def Let_def)

subsection \<open>Greedy repetition\<close>



subsection \<open>Heading candidates\<close>














subsection \<open>Dictionaries\<close>

lemma map_of_setdefault_at:
  "map_of (setdefault k v d) x =
     (case map_of d x of Some y \<Rightarrow> Some y | None \<Rightarrow> if x = k then Some v else None)"
  by (induction d) (auto split: option.splits)

lemma map_of_setdefault: "map_of (setdefault k v d) = map_of (d @ [(k, v)])"
  by (rule ext) (simp add: map_of_setdefault_at map_add_def split: option.splits)

lemma map_of_fold_setdefault:
  "map_of (fold (\<lambda>(k, v) d. setdefault k v d) es d) = map_of (d @ es)"
proof (induction es arbitrary: d)
  case Nil then show ?case by simp
next
  case (Cons e es)
  obtain k v where e: "e = (k, v)" by (cases e)
  have "map_of (fold (\<lambda>(k, v) d. setdefault k v d) (e # es) d) = map_of (setdefault k v d @ es)"
    using Cons.IH[of "setdefault k v d"] by (simp add: e)
  also have "\<dots> = map_of (d @ (k, v) # es)"
    by (simp add: map_of_setdefault map_add_def fun_eq_iff split: option.splits)
  finally show ?case by (simp add: e)
qed

lemma map_of_dict_set: "map_of (dict_set k v d) = (map_of d)(k \<mapsto> v)"
  by (induction d) (auto simp: fun_eq_iff)

lemma map_of_fold_dict_set:
  "map_of (fold (\<lambda>(k, v) d. dict_set k v d) es d) = map_of (rev es @ d)"
proof (induction es arbitrary: d)
  case Nil then show ?case by simp
next
  case (Cons e es)
  obtain k v where e: "e = (k, v)" by (cases e)
  show ?case using Cons.IH[of "dict_set k v d"]
    by (simp add: e map_of_dict_set map_add_def fun_eq_iff split: option.splits)
qed

lemma keys_dict_set: "x \<in> fst ` set (dict_set k v d) \<longleftrightarrow> x = k \<or> x \<in> fst ` set d"
  by (induction d) force+

lemma distinct_dict_set: "distinct (map fst d) \<Longrightarrow> distinct (map fst (dict_set k v d))"
  by (induction d) (auto simp: keys_dict_set)

lemma distinct_fold_dict_set:
  "distinct (map fst d) \<Longrightarrow> distinct (map fst (fold (\<lambda>(k, v) d. dict_set k v d) es d))"
  by (induction es arbitrary: d) (auto simp: distinct_dict_set)

lemma keys_setdefault: "x \<in> fst ` set (setdefault k v d) \<longleftrightarrow> x = k \<or> x \<in> fst ` set d"
  by (induction d) force+

lemma distinct_setdefault: "distinct (map fst d) \<Longrightarrow> distinct (map fst (setdefault k v d))"
  by (induction d) (auto simp: keys_setdefault)

lemma distinct_fold_setdefault:
  "distinct (map fst d) \<Longrightarrow> distinct (map fst (fold (\<lambda>(k, v) d. setdefault k v d) es d))"
  by (induction es arbitrary: d) (auto simp: distinct_setdefault)

lemma dict_set_fresh: "k \<notin> fst ` set d \<Longrightarrow> dict_set k v d = d @ [(k, v)]"
  by (induction d) auto

lemma fold_known:
  "distinct hs \<Longrightarrow> set hs \<inter> fst ` set d = {} \<Longrightarrow>
   fold (\<lambda>h d. case search_ml (heading_rx [h]) None 0 ft of
                  None \<Rightarrow> d | Some p \<Rightarrow> dict_set h p d) hs d =
   d @ List.map_filter (\<lambda>h. map_option (Pair h) (search_ml (heading_rx [h]) None 0 ft)) hs"
proof (induction hs arbitrary: d)
  case Nil
  then show ?case by (simp add: List.map_filter_simps)
next
  case (Cons h hs)
  show ?case
  proof (cases "search_ml (heading_rx [h]) None 0 ft")
    case None
    then show ?thesis using Cons by (simp add: List.map_filter_simps)
  next
    case (Some p)
    have fresh: "h \<notin> fst ` set d" using Cons.prems by auto
    have "set hs \<inter> fst ` set (d @ [(h, p)]) = {}" using Cons.prems by auto
    then show ?thesis using Cons.IH[of "d @ [(h, p)]"] Cons.prems Some
      by (simp add: List.map_filter_simps dict_set_fresh[OF fresh])
  qed
qed

lemma known_order_distinct: "distinct KNOWN_ORDER"
  by (simp add: KNOWN_ORDER_def str_def)

lemma known_positions_eq:
  "known_positions ft =
     List.map_filter (\<lambda>h. map_option (Pair h) (search_ml (heading_rx [h]) None 0 ft)) KNOWN_ORDER"
  unfolding known_positions_def using fold_known[OF known_order_distinct, of "[]" ft] by simp

lemma map_fst_map_filter_subseq:
  "map fst (List.map_filter (\<lambda>h. map_option (Pair h) (f h)) hs) = filter (\<lambda>h. f h \<noteq> None) hs"
  by (induction hs) (auto simp: List.map_filter_simps split: option.splits)

lemma known_positions_distinct: "distinct (map fst (known_positions ft))"
  unfolding known_positions_eq map_fst_map_filter_subseq
  using known_order_distinct by simp

lemma found_positions_distinct: "distinct (map fst (found_positions U ft))"
  unfolding found_positions_def
  by (rule distinct_fold_setdefault) (rule known_positions_distinct)

subsection \<open>Scans\<close>

lemma finditer_ml_starts:
  "(st, en, g) \<in> set (finditer_ml m prev pos xs) \<Longrightarrow> pos \<le> st"
proof (induction m prev pos xs rule: finditer_ml.induct)
  case (1 m prev pos xs)
  show ?case
  proof (cases "if at_bol prev then m xs else []")
    case Nil
    show ?thesis
    proof (cases xs)
      case Nil': Nil
      with Nil "1.prems" show ?thesis by (subst (asm) finditer_ml.simps) simp
    next
      case (Cons c cs)
      with Nil "1.prems" have "(st, en, g) \<in> set (finditer_ml m (Some c) (Suc pos) cs)"
        by (subst (asm) finditer_ml.simps) simp
      from "1.IH"(1)[OF Nil Cons this] show ?thesis by simp
    qed
  next
    case (Cons r rs)
    let ?n = "length xs - length r"
    show ?thesis
    proof (cases "?n = 0")
      case True
      show ?thesis
      proof (cases xs)
        case Nil
        with Cons True "1.prems" show ?thesis by (subst (asm) finditer_ml.simps) (auto simp: Let_def)
      next
        case xs: (Cons c cs)
        with Cons True "1.prems" have "(st, en, g) = (pos, pos, []) \<or>
            (st, en, g) \<in> set (finditer_ml m (Some c) (Suc pos) cs)"
          by (subst (asm) finditer_ml.simps) (auto simp: Let_def)
        then show ?thesis using "1.IH"(2)[OF Cons refl True xs] by auto
      qed
    next
      case False
      with Cons "1.prems" have "(st, en, g) = (pos, pos + ?n, take ?n xs) \<or>
          (st, en, g) \<in> set (finditer_ml m (Some (xs ! (?n - 1))) (pos + ?n) (drop ?n xs))"
        by (subst (asm) finditer_ml.simps) (auto simp: Let_def)
      then show ?thesis using "1.IH"(3)[OF Cons refl False] by auto
    qed
  qed
qed

lemma finditer_ml_sorted: "sorted_wrt (<) (map fst (finditer_ml m prev pos xs))"
proof (induction m prev pos xs rule: finditer_ml.induct)
  case (1 m prev pos xs)
  show ?case
  proof (cases "if at_bol prev then m xs else []")
    case Nil
    show ?thesis
    proof (cases xs)
      case Nil': Nil
      with Nil show ?thesis by (subst finditer_ml.simps) simp
    next
      case (Cons c cs)
      with Nil "1.IH"(1)[OF Nil Cons] show ?thesis by (subst finditer_ml.simps) simp
    qed
  next
    case (Cons r rs)
    let ?n = "length xs - length r"
    show ?thesis
    proof (cases "?n = 0")
      case True
      show ?thesis
      proof (cases xs)
        case Nil
        with Cons True show ?thesis by (subst finditer_ml.simps) (simp add: Let_def)
      next
        case xs: (Cons c cs)
        have "\<forall>e \<in> set (finditer_ml m (Some c) (Suc pos) cs). pos < fst e"
          using finditer_ml_starts[of _ _ _ m "Some c" "Suc pos" cs] by force
        with Cons True xs "1.IH"(2)[OF Cons refl True xs] show ?thesis
          by (subst finditer_ml.simps) (simp add: Let_def)
      qed
    next
      case False
      have "\<forall>e \<in> set (finditer_ml m (Some (xs ! (?n - 1))) (pos + ?n) (drop ?n xs)). pos < fst e"
        using finditer_ml_starts[of _ _ _ m "Some (xs ! (?n - 1))" "pos + ?n" "drop ?n xs"] False
        by force
      with Cons False "1.IH"(3)[OF Cons refl False] show ?thesis
        by (subst finditer_ml.simps) (simp add: Let_def)
    qed
  qed
qed

lemma caps_candidates_sorted: "sorted_wrt (<) (map snd (caps_candidates U ft))"
proof -
  have e: "map snd (caps_candidates U ft) =
        map fst (filter (\<lambda>(st, en, g). upper U (strip g) = strip g \<and> strip g \<noteq> artifact)
          (finditer_ml CAPS_LINE None 0 ft))"
    unfolding caps_candidates_def by (simp add: case_prod_beta comp_def)
  show ?thesis unfolding e sorted_wrt_map
    by (rule sorted_wrt_filter) (use finditer_ml_sorted[of CAPS_LINE None 0 ft] in \<open>simp add: sorted_wrt_map\<close>)
qed

lemma search_ml_char:
  "(search_ml m prev pos xs = Some p) =
   (pos \<le> p \<and> p - pos \<le> length xs \<and>
    at_bol (if p = pos then prev else Some (xs ! (p - pos - 1))) \<and> m (drop (p - pos) xs) \<noteq> [] \<and>
    (\<forall>q < p - pos. \<not> (at_bol (if q = 0 then prev else Some (xs ! (q - 1))) \<and> m (drop q xs) \<noteq> [])))"
proof (induction xs arbitrary: prev pos)
  case Nil
  then show ?case by auto
next
  case (Cons c cs)
  show ?case
  proof (cases "at_bol prev \<and> m (c # cs) \<noteq> []")
    case True
    then have l: "(search_ml m prev pos (c # cs) = Some p) = (p = pos)" by auto
    show ?thesis unfolding l using True
      by (auto simp: le_Suc_eq dest!: spec[of _ 0])
  next
    case False
    then have l: "search_ml m prev pos (c # cs) = search_ml m (Some c) (Suc pos) cs" by auto
    show ?thesis unfolding l Cons.IH
    proof (intro iffI; elim conjE; intro conjI)
      assume a: "Suc pos \<le> p" "p - Suc pos \<le> length cs"
        "at_bol (if p = Suc pos then Some c else Some (cs ! (p - Suc pos - 1)))"
        "m (drop (p - Suc pos) cs) \<noteq> []"
        "\<forall>q<p - Suc pos. \<not> (at_bol (if q = 0 then Some c else Some (cs ! (q - 1))) \<and> m (drop q cs) \<noteq> [])"
      show "pos \<le> p" using a by simp
      show "p - pos \<le> length (c # cs)" using a by simp
      have pp: "p - pos = Suc (p - Suc pos)" using a by simp
      show "at_bol (if p = pos then prev else Some ((c # cs) ! (p - pos - 1)))"
        using a by (cases "p = Suc pos") (auto simp: pp nth_Cons')
      show "m (drop (p - pos) (c # cs)) \<noteq> []" using a by (simp add: pp)
      show "\<forall>q<p - pos. \<not> (at_bol (if q = 0 then prev else Some ((c # cs) ! (q - 1))) \<and> m (drop q (c # cs)) \<noteq> [])"
      proof (intro allI impI)
        fix q assume q: "q < p - pos"
        show "\<not> (at_bol (if q = 0 then prev else Some ((c # cs) ! (q - 1))) \<and> m (drop q (c # cs)) \<noteq> [])"
        proof (cases q)
          case 0
          then show ?thesis using False by simp
        next
          case (Suc q')
          then have "q' < p - Suc pos" using q by simp
          from a(5)[rule_format, OF this] show ?thesis
            by (cases q') (auto simp: Suc)
        qed
      qed
    next
      assume a: "pos \<le> p" "p - pos \<le> length (c # cs)"
        "at_bol (if p = pos then prev else Some ((c # cs) ! (p - pos - 1)))"
        "m (drop (p - pos) (c # cs)) \<noteq> []"
        "\<forall>q<p - pos. \<not> (at_bol (if q = 0 then prev else Some ((c # cs) ! (q - 1))) \<and> m (drop q (c # cs)) \<noteq> [])"
      have ne: "p \<noteq> pos" using a(3,4) False by auto
      then have pp: "p - pos = Suc (p - Suc pos)" using a by simp
      show "Suc pos \<le> p" using a ne by simp
      show "p - Suc pos \<le> length cs" using a pp by simp
      have "(c # cs) ! (p - pos - 1) = (if p = Suc pos then c else cs ! (p - Suc pos - 1))"
        using \<open>Suc pos \<le> p\<close> by (auto simp: nth_Cons')
      then show "at_bol (if p = Suc pos then Some c else Some (cs ! (p - Suc pos - 1)))"
        using a(3) ne by (simp split: if_splits)
      show "m (drop (p - Suc pos) cs) \<noteq> []" using a(4) by (simp add: pp)
      show "\<forall>q<p - Suc pos. \<not> (at_bol (if q = 0 then Some c else Some (cs ! (q - 1))) \<and> m (drop q cs) \<noteq> [])"
      proof (intro allI impI)
        fix q assume "q < p - Suc pos"
        then have "Suc q < p - pos" using pp by simp
        from a(5)[rule_format, OF this] show
          "\<not> (at_bol (if q = 0 then Some c else Some (cs ! (q - 1))) \<and> m (drop q cs) \<noteq> [])"
          by (cases q) auto
      qed
    qed
  qed
qed

lemma search_ml_first:
  "(search_ml m None 0 ft = Some p) = (match_at m ft p \<and> (\<forall>q<p. \<not> match_at m ft q))"
proof -
  have 1: "match_at m ft q =
      (at_bol (if q = 0 then None else Some (ft ! (q - 1))) \<and> m (drop q ft) \<noteq> [])"
    if "q \<le> length ft" for q
    using that by (auto simp: match_at_def at_bol_def)
  have 2: "(\<forall>q<p. \<not> match_at m ft q) =
      (\<forall>q<p - 0. \<not> (at_bol (if q = 0 then None else Some (ft ! (q - 1))) \<and> m (drop q ft) \<noteq> []))"
    if "p \<le> length ft"
    using that 1 by auto
  have 3: "match_at m ft p = (0 \<le> p \<and> p - 0 \<le> length ft \<and>
      at_bol (if p = 0 then None else Some (ft ! (p - 0 - 1))) \<and> m (drop (p - 0) ft) \<noteq> [])"
    by (auto simp: match_at_def at_bol_def)
  show ?thesis
  proof (cases "p \<le> length ft")
    case True
    show ?thesis unfolding search_ml_char[of m None 0 ft p] 3 2[OF True] by blast
  next
    case False
    then show ?thesis unfolding search_ml_char[of m None 0 ft p] by (simp add: match_at_def)
  qed
qed

subsection \<open>Sections\<close>

text \<open>
  Claim C5. The first loop records, for each known heading in the fixed order, the
  start of the first line that matches it; the second loop goes through the generic
  matches from left to right. The recorded positions hold each name once, with the
  position of its first candidate in that order (the known headings, then the generic
  matches): a later candidate of the same name changes nothing. The result has each
  name once, and its body is the one behind the last mark of that name.
\<close>

theorem first_position_and_last_body:
  "known_positions ft =
     List.map_filter (\<lambda>h. map_option (Pair h) (search_ml (heading_rx [h]) None 0 ft)) KNOWN_ORDER \<and>
   (search_ml (heading_rx [h]) None 0 ft = Some p \<longleftrightarrow>
      match_at (heading_rx [h]) ft p \<and> (\<forall>q<p. \<not> match_at (heading_rx [h]) ft q)) \<and>
   sorted_wrt (<) (map snd (caps_candidates U ft)) \<and>
   distinct (map fst (found_positions U ft)) \<and>
   map_of (found_positions U ft) = map_of (known_positions ft @ caps_candidates U ft) \<and>
   distinct (map fst (split_sections U t)) \<and>
   (normalize_text U t = ft \<and> ft \<noteq> [] \<and> found_positions U ft \<noteq> [] \<longrightarrow>
      map_of (split_sections U t) =
      map_of (rev (section_bodies ft (marks (ordered_headings (found_positions U ft)) ft))))"
proof -
  have "map_of (found_positions U ft) = map_of (known_positions ft @ caps_candidates U ft)"
    by (simp add: found_positions_def map_of_fold_setdefault)
  moreover have "distinct (map fst (split_sections U t))"
    by (simp add: split_sections_def Let_def distinct_fold_dict_set)
  moreover have "normalize_text U t = ft \<and> ft \<noteq> [] \<and> found_positions U ft \<noteq> [] \<longrightarrow>
      map_of (split_sections U t) =
      map_of (rev (section_bodies ft (marks (ordered_headings (found_positions U ft)) ft)))"
    by (auto simp: split_sections_def Let_def map_of_fold_dict_set)
  ultimately show ?thesis
    using known_positions_eq[of ft] search_ml_first[of "heading_rx [h]" ft p]
      caps_candidates_sorted[of U ft] found_positions_distinct[of U ft]
    by blast
qed

theorem first_position_and_last_body_witness:
  "caps_candidates plain_tables (str ''DIGEST\<newline>a\<newline>DIGEST\<newline>b'') =
     [(str ''DIGEST'', 0), (str ''DIGEST'', 9)] \<and>
   known_positions (str ''DIGEST\<newline>a\<newline>DIGEST\<newline>b'') = [(str ''DIGEST'', 0)] \<and>
   found_positions plain_tables (str ''DIGEST\<newline>a\<newline>DIGEST\<newline>b'') = [(str ''DIGEST'', 0)] \<and>
   map_of (found_positions plain_tables (str ''DIGEST\<newline>a\<newline>DIGEST\<newline>b''))
     (str ''DIGEST'') = Some 0 \<and>
   section_bodies (str ''DIGEST\<newline>a\<newline>DIGEST\<newline>b'')
     (marks [str ''DIGEST''] (str ''DIGEST\<newline>a\<newline>DIGEST\<newline>b'')) =
     [(str ''DIGEST'', str ''a''), (str ''DIGEST'', str ''b'')] \<and>
   map_of (split_sections plain_tables (str ''DIGEST\<newline>a\<newline>DIGEST\<newline>b''))
     (str ''DIGEST'') = Some (str ''b'')"
proof -
  let ?t = "str ''DIGEST\<newline>a\<newline>DIGEST\<newline>b''"
  have n: "normalize_text plain_tables ?t = ?t"
    by (simp add: normalize_text_def char_defs)
  have k: "known_positions ?t = [(str ''DIGEST'', 0)]"
    by (simp add: known_positions_def KNOWN_ORDER_def char_defs rx_defs)
  have c: "caps_candidates plain_tables ?t = [(str ''DIGEST'', 0), (str ''DIGEST'', 9)]"
    by (simp add: caps_candidates_def artifact_def char_defs rx_defs)
  have f: "found_positions plain_tables ?t = [(str ''DIGEST'', 0)]"
    by (simp add: found_positions_def k c)
  have m: "marks [str ''DIGEST''] ?t = [(str ''DIGEST'', 0, 6), (str ''DIGEST'', 9, 15)]"
    by (simp add: marks_def char_defs rx_defs)
  have b: "section_bodies ?t (marks [str ''DIGEST''] ?t) =
             [(str ''DIGEST'', str ''a''), (str ''DIGEST'', str ''b'')]"
    by (simp add: m) (simp add: slice_def char_defs)
  have ne: "?t \<noteq> []" by (simp add: str_def)
  have o: "ordered_headings (found_positions plain_tables ?t) = [str ''DIGEST'']"
    by (simp add: f ordered_headings_def)
  from first_position_and_last_body [of ?t "str ''DIGEST''" 0 plain_tables ?t]
  have "map_of (found_positions plain_tables ?t) = map_of (known_positions ?t @ caps_candidates plain_tables ?t)"
    and "map_of (split_sections plain_tables ?t) =
         map_of (rev (section_bodies ?t (marks [str ''DIGEST''] ?t)))"
    using n ne f o by simp_all
  then show ?thesis using c b k f by simp
qed

text \<open>
  Claim C6. If the normalized text is empty the result is the empty mapping; otherwise,
  if neither a known heading nor a generic all-caps line is found, the result is the
  single entry \<^verbatim>\<open>"Full Report Text"\<close> with the normalized text.
\<close>

theorem split_sections_fallback:
  "(normalize_text U t = [] \<longrightarrow> split_sections U t = []) \<and>
   (normalize_text U t \<noteq> [] \<and> known_positions (normalize_text U t) = [] \<and>
    caps_candidates U (normalize_text U t) = [] \<longrightarrow>
      split_sections U t = [(str ''Full Report Text'', normalize_text U t)])"
  by (simp add: split_sections_def found_positions_def Let_def)

theorem split_sections_fallback_witness:
  "split_sections plain_tables (str '' \<newline> '') = [] \<and>
   split_sections plain_tables (str ''no heading'') =
     [(str ''Full Report Text'', str ''no heading'')]"
proof -
  have a: "normalize_text plain_tables (str '' \<newline> '') = []"
    by (simp add: normalize_text_def char_defs)
  have n: "normalize_text plain_tables (str ''no heading'') = str ''no heading''"
    by (simp add: normalize_text_def char_defs)
  have k: "known_positions (str ''no heading'') = []"
    by (simp add: known_positions_def KNOWN_ORDER_def char_defs rx_defs)
  have c: "caps_candidates plain_tables (str ''no heading'') = []"
    by (simp add: caps_candidates_def artifact_def char_defs rx_defs)
  have ne: "str ''no heading'' \<noteq> []" by (simp add: str_def)
  show ?thesis
    using split_sections_fallback [of plain_tables "str '' \<newline> ''"]
      split_sections_fallback [of plain_tables "str ''no heading''"] a n k c ne
    by simp
qed

subsection \<open>Boilerplate lines\<close>




lemma m_seqs_Nil: "m_seqs [] xs = [xs]"
  by (simp add: m_seqs_def)




lemma digit_not_space: "ascii_digit c \<Longrightarrow> \<not> is_space c"
  by (auto simp: ascii_digit_def is_space_def)











subsection \<open>Acquisition layer\<close>

lemma rand_ua_net [simp]: "net (snd (rand_ua w)) = net w"
  by (simp add: rand_ua_def split: list.splits)

lemma rand_ua_logged [simp]: "logged (snd (rand_ua w)) = logged w"
  by (simp add: rand_ua_def split: list.splits)

lemma session_get_net [simp]: "net (snd (snd (session_get s u h w))) = tl (net w)"
  by (simp add: session_get_def Let_def split: list.splits outcome.splits)

lemma session_get_logged [simp]: "logged (snd (snd (session_get s u h w))) = logged w"
  by (simp add: session_get_def Let_def split: list.splits outcome.splits)

lemma session_get_Inr:
  "fst (session_get s u h w) = Inr r \<longleftrightarrow> (\<exists>rest. net w = Responds r # rest)"
  by (auto simp: session_get_def Let_def split: list.splits outcome.splits)

lemma session_get_Inl:
  "(\<exists>e. fst (session_get s u h w) = Inl e) \<longleftrightarrow> (net w = [] \<or> (\<exists>rest. net w = Fails # rest))"
  by (auto simp: session_get_def Let_def split: list.splits outcome.splits)

lemma build_session_net [simp]: "net (snd (build_session w)) = tl (tl (net w))"
  by (simp add: build_session_def Let_def split: prod.splits)
     (metis rand_ua_net session_get_net snd_conv)

lemma build_session_logged [simp]: "logged (snd (build_session w)) = logged w"
  by (simp add: build_session_def Let_def split: prod.splits)
     (metis rand_ua_logged session_get_logged snd_conv)



lemma session_get_responds:
  "net w = Responds r # rest \<Longrightarrow>
   session_get s u h w =
     (Inr r, s\<lparr>cookies := dict_update (cookies s) (set_cookies r)\<rparr>,
      w\<lparr>net := rest, requested := requested w @ [(u, h)]\<rparr>)"
  by (simp add: session_get_def Let_def)

lemma session_get_fails:
  "net w = [] \<or> net w = Fails # rest \<Longrightarrow>
   session_get s u h w =
     (Inl RequestException, s, w\<lparr>net := tl (net w), requested := requested w @ [(u, h)]\<rparr>)"
  by (auto simp: session_get_def Let_def)

lemmas get_html_defs = get_html_def get_html_try_def fetch_def

lemma get_html_never_raises: "\<exists>d. fst (get_html s u w) = Inr d"
  by (cases "get_html_try s u w" rule: prod_cases3) (auto simp: get_html_def split: sum.splits)

lemma get_html_first_200:
  assumes "net w = Responds r1 # rest" "status_code r1 = 200"
  shows "fst (get_html s u w) = Inr (Some (parsed r1)) \<and>
         net (snd (snd (get_html s u w))) = rest \<and>
         logged (snd (snd (get_html s u w))) = logged w"
  using assms by (simp add: get_html_defs session_get_responds)

lemma get_html_first_other:
  assumes "net w = Responds r1 # rest" "status_code r1 \<noteq> 200" "status_code r1 \<noteq> 403"
  shows "fst (get_html s u w) = Inr None \<and>
         net (snd (snd (get_html s u w))) = rest \<and>
         logged (snd (snd (get_html s u w))) = logged w @ [WarnStatus u (status_code r1)]"
  using assms by (simp add: get_html_defs session_get_responds print_log_def)

lemma get_html_first_fails:
  assumes "net w = [] \<or> net w = Fails # rest"
  shows "fst (get_html s u w) = Inr None \<and>
         logged (snd (snd (get_html s u w))) = logged w @ [WarnRequestFailed u]"
  using session_get_fails[OF assms] by (simp add: get_html_defs print_log_def)

lemma fetch_responds:
  assumes "net w = Responds r # rest"
  shows "\<exists>s' w'. fetch s u w = (Inr r, s', w') \<and> net w' = rest \<and> logged w' = logged w \<and>
    picks w' = picks w \<and> headers s' = headers s \<and>
    cookies s' = dict_update (cookies s) (set_cookies r)"
  unfolding fetch_def by (simp add: session_get_responds[OF assms])

lemma fetch_fails:
  assumes "net w = [] \<or> net w = Fails # rest"
  shows "\<exists>s' w'. fetch s u w = (Inl RequestException, s', w') \<and> logged w' = logged w"
  unfolding fetch_def by (simp add: session_get_fails[OF assms])

lemma session_get_responds':
  assumes "net w = Responds r # rest"
  shows "\<exists>s' w'. session_get s u h w = (Inr r, s', w') \<and> net w' = rest \<and>
    logged w' = logged w \<and> picks w' = picks w \<and> headers s' = headers s \<and>
    cookies s' = dict_update (cookies s) (set_cookies r)"
  by (simp add: session_get_responds[OF assms])

lemma session_get_fails':
  assumes "net w = [] \<or> net w = Fails # rest"
  shows "\<exists>s' w'. session_get s u h w = (Inl RequestException, s', w') \<and>
    logged w' = logged w"
  by (simp add: session_get_fails[OF assms])

lemma rand_ua_obtains:
  obtains ua w' where "rand_ua w = (ua, w')" "net w' = net w" "logged w' = logged w"
  using rand_ua_net[of w] rand_ua_logged[of w] by (cases "rand_ua w") auto

lemma build_session_obtains:
  obtains s' w' where "build_session w = (s', w')" "net w' = tl (tl (net w))"
    "logged w' = logged w"
  using build_session_net[of w] build_session_logged[of w] by (cases "build_session w") auto

lemma rand_ua_fst_cong: "picks w' = picks w \<Longrightarrow> fst (rand_ua w') = fst (rand_ua w)"
  by (simp add: rand_ua_def split: list.splits)

lemma get_html_second_200:
  assumes "net w = Responds r1 # Responds r2 # rest" "status_code r1 = 403"
    "status_code r2 = 200"
  shows "fst (get_html s u w) = Inr (Some (parsed r2)) \<and>
         net (snd (snd (get_html s u w))) = rest \<and>
         logged (snd (snd (get_html s u w))) = logged w \<and>
         headers (fst (snd (get_html s u w))) =
           dict_set (str ''User-Agent'') (fst (rand_ua w)) (headers s)"
proof -
  obtain s1 w1 where f1: "fetch s u w = (Inr r1, s1, w1)" and n1: "net w1 = Responds r2 # rest"
    and l1: "logged w1 = logged w" and p1: "picks w1 = picks w" and h1: "headers s1 = headers s"
    using fetch_responds[OF assms(1)] by metis
  obtain ua w2 where ru: "rand_ua w1 = (ua, w2)" and n2: "net w2 = Responds r2 # rest"
    and l2: "logged w2 = logged w"
    using rand_ua_obtains[of w1] n1 l1 by metis
  have ua: "ua = fst (rand_ua w)" using ru rand_ua_fst_cong[OF p1] by simp
  let ?s2 = "s1\<lparr>headers := dict_set (str ''User-Agent'') ua (headers s1)\<rparr>"
  obtain s3 w3 where f2: "fetch ?s2 u w2 = (Inr r2, s3, w3)"
    and n3: "net w3 = rest" and l3: "logged w3 = logged w" and h3: "headers s3 = headers ?s2"
    using fetch_responds[OF n2, of ?s2 u] l2 by metis
  have "get_html_try s u w = (Inr (Some (parsed r2)), s3, w3)"
    using assms(2,3) by (simp add: get_html_try_def f1 ru f2)
  then show ?thesis using n3 l3 h3 h1 ua by (simp add: get_html_def)
qed

lemma get_html_second_fails:
  assumes "net w = [Responds r1] \<or> net w = Responds r1 # Fails # rest" "status_code r1 = 403"
  shows "fst (get_html s u w) = Inr None \<and>
         logged (snd (snd (get_html s u w))) = logged w @ [WarnRequestFailed u]"
proof -
  from assms(1) obtain rest' where nw: "net w = Responds r1 # rest'"
    and r': "rest' = [] \<or> rest' = Fails # rest" by auto
  obtain s1 w1 where f1: "fetch s u w = (Inr r1, s1, w1)" and n1: "net w1 = rest'"
    and l1: "logged w1 = logged w"
    using fetch_responds[OF nw] by metis
  obtain ua w2 where ru: "rand_ua w1 = (ua, w2)" and n2: "net w2 = rest'"
    and l2: "logged w2 = logged w"
    using rand_ua_obtains[of w1] n1 l1 by metis
  from r' n2 have "net w2 = [] \<or> net w2 = Fails # rest" by simp
  then obtain s3 w3 where f2: "fetch (s1\<lparr>headers := dict_set (str ''User-Agent'') ua (headers s1)\<rparr>) u w2 = (Inl RequestException, s3, w3)"
    and l3: "logged w3 = logged w"
    using fetch_fails l2 by metis
  have "get_html_try s u w = (Inl RequestException, s3, w3)"
    using assms(2) by (simp add: get_html_try_def f1 ru f2)
  then show ?thesis using l3 by (simp add: get_html_def print_log_def)
qed

lemma get_html_third:
  assumes "net w = Responds r1 # Responds r2 # rest2" "tl (tl rest2) = Responds r3 # rest"
    "status_code r1 = 403" "status_code r2 \<noteq> 200"
  shows "fst (get_html s u w) = (if status_code r3 = 200 then Inr (Some (parsed r3)) else Inr None) \<and>
         net (snd (snd (get_html s u w))) = rest \<and>
         logged (snd (snd (get_html s u w))) =
           (if status_code r3 = 200 then logged w
            else logged w @ [WarnAfterRebuild u (status_code r3)]) \<and>
         (status_code r3 = 200 \<longrightarrow>
            (\<exists>wb. net wb = rest2 \<and>
               cookies (fst (snd (get_html s u w))) =
                 dict_update (cookies (fst (build_session wb))) (set_cookies r3) \<and>
               headers (fst (snd (get_html s u w))) =
                 dict_update (dict_set (str ''User-Agent'') (fst (rand_ua w)) (headers s))
                   (headers (fst (build_session wb)))))"
proof -
  obtain s1 w1 where f1: "fetch s u w = (Inr r1, s1, w1)"
    and n1: "net w1 = Responds r2 # rest2" and l1: "logged w1 = logged w"
    and p1: "picks w1 = picks w" and h1: "headers s1 = headers s"
    using fetch_responds[OF assms(1)] by metis
  obtain ua w2 where ru: "rand_ua w1 = (ua, w2)"
    and n2: "net w2 = Responds r2 # rest2" and l2: "logged w2 = logged w"
    using rand_ua_obtains[of w1] n1 l1 by metis
  have ua: "ua = fst (rand_ua w)" using ru rand_ua_fst_cong[OF p1] by simp
  let ?s2 = "s1\<lparr>headers := dict_set (str ''User-Agent'') ua (headers s1)\<rparr>"
  obtain s3 w3 where f2: "fetch ?s2 u w2 = (Inr r2, s3, w3)"
    and n3: "net w3 = rest2" and l3: "logged w3 = logged w" and h3: "headers s3 = headers ?s2"
    using fetch_responds[OF n2, of ?s2 u] l2 by metis
  obtain ns w4 where bs: "build_session w3 = (ns, w4)" and n4: "net w4 = Responds r3 # rest"
    and l4: "logged w4 = logged w"
    using build_session_obtains[of w3] n3 l3 assms(2) by metis
  obtain n5 w5 where g3: "session_get ns u [] w4 = (Inr r3, n5, w5)" and n5: "net w5 = rest"
    and l5: "logged w5 = logged w" and h5: "headers n5 = headers ns"
    and c5: "cookies n5 = dict_update (cookies ns) (set_cookies r3)"
    using session_get_responds'[OF n4, of ns u "[]"] l4 by metis
  have t: "get_html_try s u w =
          (if status_code r3 = 200
           then (Inr (Some (parsed r3)),
                 s3\<lparr>cookies := cookies n5, headers := dict_update (headers s3) (headers n5)\<rparr>, w5)
           else (Inr None, s3, print_log (WarnAfterRebuild u (status_code r3)) w5))"
    using assms(3,4) by (simp add: get_html_try_def f1 ru f2 bs g3)
  have ns: "ns = fst (build_session w3)" using bs by simp
  have "status_code r3 = 200 \<longrightarrow>
          cookies (fst (snd (get_html s u w))) =
            dict_update (cookies (fst (build_session w3))) (set_cookies r3) \<and>
          headers (fst (snd (get_html s u w))) =
            dict_update (dict_set (str ''User-Agent'') (fst (rand_ua w)) (headers s))
              (headers (fst (build_session w3)))"
    using t by (simp add: get_html_def c5 h5 h3 h1 ua ns)
  with n3 have "status_code r3 = 200 \<longrightarrow>
            (\<exists>wb. net wb = rest2 \<and>
               cookies (fst (snd (get_html s u w))) =
                 dict_update (cookies (fst (build_session wb))) (set_cookies r3) \<and>
               headers (fst (snd (get_html s u w))) =
                 dict_update (dict_set (str ''User-Agent'') (fst (rand_ua w)) (headers s))
                   (headers (fst (build_session wb))))"
    by blast
  moreover have "fst (get_html s u w) =
      (if status_code r3 = 200 then Inr (Some (parsed r3)) else Inr None)"
    and "net (snd (snd (get_html s u w))) = rest"
    and "logged (snd (snd (get_html s u w))) =
           (if status_code r3 = 200 then logged w
            else logged w @ [WarnAfterRebuild u (status_code r3)])"
    using t n5 l5 by (simp_all add: get_html_def print_log_def)
  ultimately show ?thesis by blast
qed

lemma get_html_third_fails:
  assumes "net w = Responds r1 # Responds r2 # rest2"
    "tl (tl rest2) = [] \<or> tl (tl rest2) = Fails # rest"
    "status_code r1 = 403" "status_code r2 \<noteq> 200"
  shows "fst (get_html s u w) = Inr None \<and>
         logged (snd (snd (get_html s u w))) = logged w @ [WarnRequestFailed u]"
proof -
  obtain s1 w1 where f1: "fetch s u w = (Inr r1, s1, w1)"
    and n1: "net w1 = Responds r2 # rest2" and l1: "logged w1 = logged w"
    using fetch_responds[OF assms(1)] by metis
  obtain ua w2 where ru: "rand_ua w1 = (ua, w2)"
    and n2: "net w2 = Responds r2 # rest2" and l2: "logged w2 = logged w"
    using rand_ua_obtains[of w1] n1 l1 by metis
  let ?s2 = "s1\<lparr>headers := dict_set (str ''User-Agent'') ua (headers s1)\<rparr>"
  obtain s3 w3 where f2: "fetch ?s2 u w2 = (Inr r2, s3, w3)"
    and n3: "net w3 = rest2" and l3: "logged w3 = logged w"
    using fetch_responds[OF n2, of ?s2 u] l2 by metis
  obtain ns w4 where bs: "build_session w3 = (ns, w4)" and n4: "net w4 = tl (tl rest2)"
    and l4: "logged w4 = logged w"
    using build_session_obtains[of w3] n3 l3 by metis
  from assms(2) n4 have "net w4 = [] \<or> net w4 = Fails # rest" by simp
  then obtain n5 w5 where g3: "session_get ns u [] w4 = (Inl RequestException, n5, w5)"
    and l5: "logged w5 = logged w"
    using session_get_fails'[of w4 rest ns u "[]"] l4 by metis
  have "get_html_try s u w = (Inl RequestException, s3, w5)"
    using assms(3,4) by (simp add: get_html_try_def f1 ru f2 bs g3)
  then show ?thesis using l5 by (simp add: get_html_def print_log_def)
qed

lemma list_shape: "xs = [] \<or> (\<exists>rest. xs = Fails # rest) \<or> (\<exists>r rest. xs = Responds r # rest)"
  by (cases xs) (auto intro: outcome.exhaust)

lemma get_html_some_only_200:
  assumes "fst (get_html s u w) = Inr (Some d)"
  shows "\<exists>r. Responds r \<in> set (net w) \<and> status_code r = 200 \<and> parsed r = d"
proof -
  consider "net w = []" | rest where "net w = Fails # rest"
    | r1 rest1 where "net w = Responds r1 # rest1"
    using list_shape[of "net w"] by blast
  then show ?thesis
  proof cases
    case 1
    then show ?thesis using get_html_first_fails[of w _ s u] assms by simp
  next
    case 2
    then show ?thesis using get_html_first_fails[of w rest s u] assms by simp
  next
    case 3
    note n = 3
    show ?thesis
    proof (cases "status_code r1 = 200")
      case True
      then show ?thesis using get_html_first_200[OF n True, of s u] assms n by auto
    next
      case F1: False
      show ?thesis
      proof (cases "status_code r1 = 403")
        case False
        then show ?thesis using get_html_first_other[OF n F1 False, of s u] assms by simp
      next
        case T3: True
        consider "rest1 = []" | rest where "rest1 = Fails # rest"
          | r2 rest2 where "rest1 = Responds r2 # rest2"
          using list_shape[of rest1] by blast
        then show ?thesis
        proof cases
          case 1
          then show ?thesis using get_html_second_fails[of w r1 _ s u] assms n T3 by simp
        next
          case 2
          then show ?thesis using get_html_second_fails[of w r1 rest s u] assms n T3 by simp
        next
          case 3
          note n2 = n[unfolded 3]
          show ?thesis
          proof (cases "status_code r2 = 200")
            case True
            then show ?thesis using get_html_second_200[OF n2 T3 True, of s u] assms n2 by auto
          next
            case F2: False
            consider "tl (tl rest2) = []" | rest where "tl (tl rest2) = Fails # rest"
              | r3 rest3 where "tl (tl rest2) = Responds r3 # rest3"
              using list_shape[of "tl (tl rest2)"] by blast
            then show ?thesis
            proof cases
              case 1
              then show ?thesis using get_html_third_fails[OF n2 _ T3 F2, of _ s u] assms by simp
            next
              case 2
              then show ?thesis using get_html_third_fails[OF n2 _ T3 F2, of rest s u] assms by simp
            next
              case 3
              have "Responds r3 \<in> set (tl (tl rest2))" using 3 by simp
              then have m: "Responds r3 \<in> set (net w)" unfolding n2
                by (metis list.sel(2) list.set_sel(2) list.set_intros(2))
              show ?thesis using get_html_third[OF n2 3 T3 F2, of s u] assms m
                by (auto split: if_splits)
            qed
          qed
        qed
      qed
    qed
  qed
qed
text \<open>
  Claim C7. \<open>get_html\<close> never raises. It returns a document only from a response with
  status 200. A first response 200 is returned at once; a first response that is
  neither 200 nor 403 gives \<open>None\<close> after one request and a warning with the status. On
  a first 403 the User-Agent header is replaced by a fresh random choice and the
  request repeated once; a 200 is returned. Otherwise a new session is built (its two
  warm-up requests take the next two outcomes) and the request made a third time through
  it: a 200 is returned, the caller's session taking the cookies of the new session and
  updating its headers with those of the new session; any other status gives \<open>None\<close>
  and the warning that carries it. A transport exception at any of the three attempts
  gives \<open>None\<close> and a warning.
\<close>

theorem get_html_escalating_recovery:
  "(\<exists>d. fst (get_html s u w) = Inr d) \<and>
   (fst (get_html s u w) = Inr (Some d) \<longrightarrow>
      (\<exists>r. Responds r \<in> set (net w) \<and> status_code r = 200 \<and> parsed r = d)) \<and>
   (net w = Responds r1 # rest \<and> status_code r1 = 200 \<longrightarrow>
      fst (get_html s u w) = Inr (Some (parsed r1)) \<and>
      net (snd (snd (get_html s u w))) = rest \<and>
      logged (snd (snd (get_html s u w))) = logged w) \<and>
   (net w = Responds r1 # rest \<and> status_code r1 \<noteq> 200 \<and> status_code r1 \<noteq> 403 \<longrightarrow>
      fst (get_html s u w) = Inr None \<and>
      net (snd (snd (get_html s u w))) = rest \<and>
      logged (snd (snd (get_html s u w))) = logged w @ [WarnStatus u (status_code r1)]) \<and>
   (net w = Responds r1 # Responds r2 # rest \<and> status_code r1 = 403 \<and>
    status_code r2 = 200 \<longrightarrow>
      fst (get_html s u w) = Inr (Some (parsed r2)) \<and>
      net (snd (snd (get_html s u w))) = rest \<and>
      logged (snd (snd (get_html s u w))) = logged w \<and>
      headers (fst (snd (get_html s u w))) =
        dict_set (str ''User-Agent'') (fst (rand_ua w)) (headers s)) \<and>
   (net w = Responds r1 # Responds r2 # rest2 \<and> tl (tl rest2) = Responds r3 # rest \<and>
    status_code r1 = 403 \<and> status_code r2 \<noteq> 200 \<longrightarrow>
      fst (get_html s u w) =
        (if status_code r3 = 200 then Inr (Some (parsed r3)) else Inr None) \<and>
      net (snd (snd (get_html s u w))) = rest \<and>
      logged (snd (snd (get_html s u w))) =
        (if status_code r3 = 200 then logged w
         else logged w @ [WarnAfterRebuild u (status_code r3)]) \<and>
      (status_code r3 = 200 \<longrightarrow>
         (\<exists>wb. net wb = rest2 \<and>
            cookies (fst (snd (get_html s u w))) =
              dict_update (cookies (fst (build_session wb))) (set_cookies r3) \<and>
            headers (fst (snd (get_html s u w))) =
              dict_update (dict_set (str ''User-Agent'') (fst (rand_ua w)) (headers s))
                (headers (fst (build_session wb)))))) \<and>
   ((net w = [] \<or> net w = Fails # rest) \<or>
    (status_code r1 = 403 \<and> (net w = [Responds r1] \<or> net w = Responds r1 # Fails # rest)) \<or>
    (status_code r1 = 403 \<and> status_code r2 \<noteq> 200 \<and>
     net w = Responds r1 # Responds r2 # rest2 \<and>
     (tl (tl rest2) = [] \<or> tl (tl rest2) = Fails # rest)) \<longrightarrow>
      fst (get_html s u w) = Inr None \<and>
      logged (snd (snd (get_html s u w))) = logged w @ [WarnRequestFailed u])"
proof -
  have a: "\<exists>d. fst (get_html s u w) = Inr d" by (rule get_html_never_raises)
  have b: "fst (get_html s u w) = Inr (Some d) \<longrightarrow>
      (\<exists>r. Responds r \<in> set (net w) \<and> status_code r = 200 \<and> parsed r = d)"
    using get_html_some_only_200 by blast
  show ?thesis
    using a b get_html_first_200[of w r1 rest s u] get_html_first_other[of w r1 rest s u]
      get_html_second_200[of w r1 r2 rest s u] get_html_third[of w r1 r2 rest2 r3 rest s u]
      get_html_first_fails[of w rest s u] get_html_second_fails[of w r1 rest s u]
      get_html_third_fails[of w r1 r2 rest2 rest s u]
    by blast
qed

theorem get_html_escalating_recovery_witness:
  "fst (get_html new_session (str ''https://www.gao.gov/products/b-1'')
          (world_with [answer 403 blank_page, answer 403 blank_page, Fails,
                       answer 200 blank_page, answer 200 decision_page])) =
     Inr (Some decision_page) \<and>
   fst (get_html new_session (str ''https://www.gao.gov/products/b-1'')
          (world_with [answer 403 blank_page, answer 403 blank_page, Fails,
                       answer 200 blank_page, answer 403 decision_page])) = Inr None \<and>
   logged (snd (snd (get_html new_session (str ''https://www.gao.gov/products/b-1'')
          (world_with [answer 403 blank_page, answer 403 blank_page, Fails,
                       answer 200 blank_page, answer 403 decision_page])))) =
     [WarnAfterRebuild (str ''https://www.gao.gov/products/b-1'') 403] \<and>
   fst (get_html new_session (str ''https://www.gao.gov/products/b-1'')
          (world_with [answer 500 decision_page])) = Inr None \<and>
   fst (get_html new_session (str ''https://www.gao.gov/products/b-1'')
          (world_with [answer 200 decision_page])) = Inr (Some decision_page)"
proof -
  let ?u = "str ''https://www.gao.gov/products/b-1''"
  let ?r = "\<lambda>code page. \<lparr>status_code = code, parsed = page, set_cookies = []\<rparr>"
  have 1: "fst (get_html new_session ?u
          (world_with [answer 403 blank_page, answer 403 blank_page, Fails,
                       answer 200 blank_page, answer 200 decision_page])) =
     Inr (Some decision_page)"
    using get_html_escalating_recovery [of new_session ?u
        "world_with [answer 403 blank_page, answer 403 blank_page, Fails,
                       answer 200 blank_page, answer 200 decision_page]"
        _ "?r 403 blank_page" "[]" "?r 403 blank_page"
        "[Fails, answer 200 blank_page, answer 200 decision_page]" "?r 200 decision_page"]
    by (simp add: world_with_def answer_def)
  have 2: "fst (get_html new_session ?u
          (world_with [answer 403 blank_page, answer 403 blank_page, Fails,
                       answer 200 blank_page, answer 403 decision_page])) = Inr None \<and>
     logged (snd (snd (get_html new_session ?u
          (world_with [answer 403 blank_page, answer 403 blank_page, Fails,
                       answer 200 blank_page, answer 403 decision_page])))) =
     [WarnAfterRebuild ?u 403]"
    using get_html_escalating_recovery [of new_session ?u
        "world_with [answer 403 blank_page, answer 403 blank_page, Fails,
                       answer 200 blank_page, answer 403 decision_page]"
        _ "?r 403 blank_page" "[]" "?r 403 blank_page"
        "[Fails, answer 200 blank_page, answer 403 decision_page]" "?r 403 decision_page"]
    by (simp add: world_with_def answer_def)
  have 3: "fst (get_html new_session ?u (world_with [answer 500 decision_page])) = Inr None"
    using get_html_escalating_recovery [of new_session ?u
        "world_with [answer 500 decision_page]" _ "?r 500 decision_page" "[]"]
    by (simp add: world_with_def answer_def)
  have 4: "fst (get_html new_session ?u (world_with [answer 200 decision_page])) =
      Inr (Some decision_page)"
    using get_html_escalating_recovery [of new_session ?u
        "world_with [answer 200 decision_page]" _ "?r 200 decision_page" "[]"]
    by (simp add: world_with_def answer_def)
  show ?thesis using 1 2 3 4 by simp
qed

subsection \<open>How the world evolves\<close>

lemma evolves_refl [simp]: "evolves w w"
  unfolding evolves_def by (metis drop0)

lemma evolves_trans: "evolves w w' \<Longrightarrow> evolves w' w'' \<Longrightarrow> evolves w w''"
  unfolding evolves_def by (metis drop_drop)

lemma evolves_print_log [simp]: "evolves w (print_log e w') = evolves w w'"
  by (simp add: evolves_def print_log_def)

lemma evolves_rand_ua: "evolves w (snd (rand_ua w))"
  by (auto simp: evolves_def rand_ua_def split: list.splits intro: exI[of _ 0])

lemma evolves_session_get: "evolves w (snd (snd (session_get s u h w)))"
proof -
  have "net (snd (snd (session_get s u h w))) = drop 1 (net w)"
    by (simp add: drop_Suc)
  moreover have "disk (snd (snd (session_get s u h w))) = drop 0 (disk w)"
    by (simp add: session_get_def Let_def split: list.splits outcome.splits)
  ultimately show ?thesis unfolding evolves_def by blast
qed

lemma evolves_fetch: "evolves w (snd (snd (fetch s u w)))"
  unfolding fetch_def by (rule evolves_session_get)

lemma rand_ua_disk [simp]: "disk (snd (rand_ua w)) = disk w"
  by (simp add: rand_ua_def split: list.splits)

lemma session_get_disk [simp]: "disk (snd (snd (session_get s u h w))) = disk w"
  by (simp add: session_get_def Let_def split: list.splits outcome.splits)

lemma build_session_disk [simp]: "disk (snd (build_session w)) = disk w"
  by (simp add: build_session_def Let_def split: prod.splits)
     (metis rand_ua_disk session_get_disk snd_conv)

lemma evolves_build_session: "evolves w (snd (build_session w))"
proof -
  have "net (snd (build_session w)) = drop 2 (net w)"
    by (simp add: drop_Suc numeral_2_eq_2 drop_tl)
  moreover have "disk (snd (build_session w)) = drop 0 (disk w)" by simp
  ultimately show ?thesis unfolding evolves_def by blast
qed

lemma evolves_get_html_try_after_fetch:
  "evolves (snd (snd (fetch s u w))) (snd (snd (get_html_try s u w)))"
proof -
  obtain x1 s1 w1 where f1: "fetch s u w = (x1, s1, w1)" by (cases "fetch s u w")
  show ?thesis
  proof (cases x1)
    case (Inl e)
    then show ?thesis by (simp add: get_html_try_def f1)
  next
    case (Inr r)
    note x1 = Inr
    obtain ua w2 where ru: "rand_ua w1 = (ua, w2)" by (cases "rand_ua w1")
    then have e2: "evolves w1 w2" using evolves_rand_ua[of w1] by simp
    let ?s2 = "s1\<lparr>headers := dict_set (str ''User-Agent'') ua (headers s1)\<rparr>"
    obtain x2 s3 w3 where f2: "fetch ?s2 u w2 = (x2, s3, w3)" by (cases "fetch ?s2 u w2")
    then have e3: "evolves w1 w3" using evolves_fetch[of w2 ?s2 u] e2 evolves_trans by fastforce
    obtain ns w4 where bs: "build_session w3 = (ns, w4)" by (cases "build_session w3")
    then have e4: "evolves w1 w4" using evolves_build_session[of w3] e3 evolves_trans by fastforce
    obtain x3 n5 w5 where g3: "session_get ns u [] w4 = (x3, n5, w5)"
      by (cases "session_get ns u [] w4")
    then have e5: "evolves w1 w5" using evolves_session_get[of w4 ns u "[]"] e4 evolves_trans
      by fastforce
    show ?thesis
      using e3 e5
      by (cases x2; cases x3) (simp_all add: get_html_try_def f1 x1 ru f2 bs g3)
  qed
qed

lemma evolves_get_html_after_fetch:
  "evolves (snd (snd (fetch s u w))) (snd (snd (get_html s u w)))"
  using evolves_get_html_try_after_fetch[of s u w]
  by (cases "get_html_try s u w" rule: prod_cases3) (auto simp: get_html_def split: sum.splits)

lemma evolves_get_html: "evolves w (snd (snd (get_html s u w)))"
  using evolves_trans[OF evolves_fetch evolves_get_html_after_fetch] .

lemma evolves_net_length: "evolves w w' \<Longrightarrow> length (net w') \<le> length (net w)"
  by (auto simp: evolves_def)

lemma evolves_disk_all: "evolves w w' \<Longrightarrow> list_all P (disk w) \<Longrightarrow> list_all P (disk w')"
  unfolding evolves_def list_all_iff using set_drop_subset by fastforce

lemma get_html_net_shrinks:
  assumes "net w \<noteq> []"
  shows "length (net (snd (snd (get_html s u w)))) < length (net w)"
proof -
  have "net (snd (snd (fetch s u w))) = tl (net w)" unfolding fetch_def by simp
  then have "length (net (snd (snd (fetch s u w)))) < length (net w)" using assms by simp
  with evolves_net_length[OF evolves_get_html_after_fetch[of s u w]] show ?thesis by simp
qed

lemma get_html_some_net: "fst (get_html s u w) = Inr (Some d) \<Longrightarrow> net w \<noteq> []"
  using get_html_some_only_200[of s u w d] by auto

subsection \<open>One document\<close>

lemma evolves_writes_ok: "evolves w w' \<Longrightarrow> writes_ok w \<Longrightarrow> writes_ok w'"
  unfolding writes_ok_def by (rule evolves_disk_all)

lemma scrape_cases:
  obtains (none) s' w' where "get_html s u w = (Inr None, s', w')"
      "scrape_item_with_bs U s u w = (Inr (failure_record u), s', w')"
  | (some) sp s' w' where "get_html s u w = (Inr (Some sp), s', w')"
      "scrape_item_with_bs U s u w =
         (Inr \<lparr>url = u, title = doc_title sp, file_number = doc_file_no sp,
               date = doc_date sp, pdf_pages = None,
               full_text = normalize_text U (clean_report_text U (doc_raw sp)),
               sections = split_sections U (clean_report_text U (doc_raw sp))\<rparr>, s', w')"
proof -
  obtain x s' w' where g: "get_html s u w = (x, s', w')" by (cases "get_html s u w")
  obtain d where x: "x = Inr d" using get_html_never_raises[of s u w] g by auto
  show ?thesis
  proof (cases d)
    case None
    then show ?thesis using none g x
      by (simp add: scrape_item_with_bs_def failure_record_def)
  next
    case (Some sp)
    then show ?thesis using some g x
      by (simp add: scrape_item_with_bs_def Let_def)
  qed
qed

lemma scrape_result:
  "\<exists>rec. fst (scrape_item_with_bs U s u w) = Inr rec \<and> url rec = u"
  by (cases rule: scrape_cases[of s u w U]) (auto simp: failure_record_def)

lemma scrape_failure:
  "fst (get_html s u w) = Inr None \<Longrightarrow> fst (scrape_item_with_bs U s u w) = Inr (failure_record u)"
  by (cases rule: scrape_cases[of s u w U]) auto

lemma scrape_world: "snd (snd (scrape_item_with_bs U s u w)) = snd (snd (get_html s u w))"
  by (cases rule: scrape_cases[of s u w U]) auto

lemma evolves_scrape: "evolves w (snd (snd (scrape_item_with_bs U s u w)))"
  unfolding scrape_world by (rule evolves_get_html)

lemma disk_write_ok:
  assumes "writes_ok w"
  shows "disk_write path c w =
           (None, w\<lparr>disk := tl (disk w), files := dict_set path c (files w)\<rparr>)"
proof (cases "disk w")
  case Nil
  then show ?thesis by (simp add: disk_write_def)
next
  case (Cons x xs)
  with assms have "x = Written" by (simp add: writes_ok_def)
  with Cons show ?thesis by (simp add: disk_write_def)
qed

lemma evolves_disk_write: "evolves w (snd (disk_write path c w))"
proof -
  have "net (snd (disk_write path c w)) = drop 0 (net w)"
    by (simp add: disk_write_def split: list.splits write_outcome.splits)
  moreover have "disk (snd (disk_write path c w)) = drop 1 (disk w) \<or>
                 disk (snd (disk_write path c w)) = drop 0 (disk w)"
    by (auto simp: disk_write_def split: list.splits write_outcome.splits)
  ultimately show ?thesis unfolding evolves_def by blast
qed

lemma evolves_write_outputs: "evolves w (snd (write_outputs recs oc ox w))"
proof -
  obtain r1 w1 where 1: "disk_write oc (CsvFile recs) w = (r1, w1)"
    by (cases "disk_write oc (CsvFile recs) w")
  then have e1: "evolves w w1" using evolves_disk_write[of w oc "CsvFile recs"] by simp
  have e2: "evolves w (snd (disk_write ox (Workbook recs) w1))"
    using evolves_trans[OF e1 evolves_disk_write] .
  show ?thesis using e1 e2 by (cases r1) (simp_all add: write_outputs_def 1)
qed

lemma write_outputs_not_stop: "fst (write_outputs recs oc ox w) \<noteq> Some StopIteration"
  by (auto simp: write_outputs_def disk_write_def
      split: prod.splits list.splits write_outcome.splits option.splits)

lemma evolves_flush: "evolves w (snd (flush warn recs oc ox w))"
proof -
  obtain r1 w1 where 1: "write_outputs recs oc ox w = (r1, w1)"
    by (cases "write_outputs recs oc ox w")
  then have e1: "evolves w w1" using evolves_write_outputs[of w recs oc ox] by simp
  have e2: "evolves w (snd (write_outputs recs oc (partial_path ox) (print_log warn w1)))"
    using evolves_trans[OF e1, of "snd (write_outputs recs oc (partial_path ox) (print_log warn w1))"]
      evolves_write_outputs[of "print_log warn w1" recs oc "partial_path ox"]
    by (simp add: evolves_def print_log_def)
  show ?thesis using e1 e2
    by (simp add: flush_def 1 split: option.splits exn.splits)
qed

lemma flush_not_stop: "fst (flush warn recs oc ox w) \<noteq> Some StopIteration"
proof -
  obtain r1 w1 where 1: "write_outputs recs oc ox w = (r1, w1)"
    by (cases "write_outputs recs oc ox w")
  then have a: "r1 \<noteq> Some StopIteration" using write_outputs_not_stop[of recs oc ox w] by simp
  have b: "fst (write_outputs recs oc (partial_path ox) (print_log warn w1)) \<noteq> Some StopIteration"
    by (rule write_outputs_not_stop)
  show ?thesis using a b by (simp add: flush_def 1 split: option.splits exn.splits)
qed

lemma write_outputs_ok:
  assumes "writes_ok w"
  shows "fst (write_outputs recs oc ox w) = None \<and>
         (ox = [] \<or> oc \<noteq> ox \<longrightarrow>
            map_of (files (snd (write_outputs recs oc ox w))) oc = Some (CsvFile recs)) \<and>
         (ox \<noteq> [] \<longrightarrow>
            map_of (files (snd (write_outputs recs oc ox w))) ox = Some (Workbook recs))"
proof -
  let ?w1 = "w\<lparr>disk := tl (disk w), files := dict_set oc (CsvFile recs) (files w)\<rparr>"
  have 1: "disk_write oc (CsvFile recs) w = (None, ?w1)" using assms by (rule disk_write_ok)
  have "writes_ok ?w1" using assms by (cases "disk w") (auto simp: writes_ok_def)
  then have 2: "disk_write ox (Workbook recs) ?w1 =
      (None, ?w1\<lparr>disk := tl (disk ?w1), files := dict_set ox (Workbook recs) (files ?w1)\<rparr>)"
    by (rule disk_write_ok)
  show ?thesis
    by (simp add: write_outputs_def 1 2 map_of_dict_set)
qed

lemma flush_ok:
  assumes "writes_ok w"
  shows "flush warn recs oc ox w = write_outputs recs oc ox w"
  using write_outputs_ok[OF assms, of recs oc ox]
  by (cases "write_outputs recs oc ox w") (simp add: flush_def)

lemma process_one_result:
  obtains rec r s' w' where
    "process_one U u oc ox (s, records, processed, w) = (r, (s', records @ [rec], processed + 1, w'))"
    "fst (scrape_item_with_bs U s u w) = Inr rec" "url rec = u"
    "(r, w') = flush WarnExcelLocked (records @ [rec]) oc ox (snd (snd (scrape_item_with_bs U s u w)))"
    "r \<noteq> Some StopIteration" "evolves w w'"
proof -
  obtain x s1 w1 where sc: "scrape_item_with_bs U s u w = (x, s1, w1)"
    by (cases "scrape_item_with_bs U s u w")
  obtain rec where x: "x = Inr rec" and ur: "url rec = u"
    using scrape_result[of U s u w] sc by auto
  obtain r w2 where fl: "flush WarnExcelLocked (records @ [rec]) oc ox w1 = (r, w2)"
    by (cases "flush WarnExcelLocked (records @ [rec]) oc ox w1")
  have e1: "evolves w w1" using evolves_scrape[of w U s u] sc by simp
  have e2: "evolves w1 w2" using evolves_flush[of w1 WarnExcelLocked "records @ [rec]" oc ox] fl
    by simp
  have ns: "r \<noteq> Some StopIteration"
    using flush_not_stop[of WarnExcelLocked "records @ [rec]" oc ox w1] fl by simp
  have "process_one U u oc ox (s, records, processed, w) =
          (r, (s1, records @ [rec], processed + 1, w2))"
    by (simp add: process_one_def sc x fl)
  then show ?thesis using that[of r s1 rec w2] sc x ur fl ns evolves_trans[OF e1 e2] by simp
qed

text \<open>
  Claim C2. The loop body behind the budget check appends exactly one record, for the
  URL it was given, whatever the fetch does, and counts it. When no coming write fails,
  the flush that follows writes the whole list, the new record included, to the CSV
  file and, if a workbook path is given, to the workbook (the two paths being
  different files). When \<open>get_html\<close> returns \<open>None\<close>, the record has the URL, empty
  title, file number, date and full text, and no sections.
\<close>

theorem one_record_per_url_even_on_failure:
  "(\<exists>rec r s' w'.
      process_one U u out_csv out_xlsx (s, records, processed, w) =
        (r, (s', records @ [rec], processed + 1, w')) \<and>
      fst (scrape_item_with_bs U s u w) = Inr rec \<and> url rec = u \<and>
      (writes_ok w \<longrightarrow> r = None \<and>
         (out_xlsx = [] \<or> out_csv \<noteq> out_xlsx \<longrightarrow>
            map_of (files w') out_csv = Some (CsvFile (records @ [rec]))) \<and>
         (out_xlsx \<noteq> [] \<longrightarrow>
            map_of (files w') out_xlsx = Some (Workbook (records @ [rec]))))) \<and>
   (fst (get_html s u w) = Inr None \<longrightarrow>
      fst (scrape_item_with_bs U s u w) =
        Inr \<lparr>url = u, title = [], file_number = [], date = [], pdf_pages = None,
              full_text = [], sections = []\<rparr>)"
proof -
  obtain rec r s' w' where p:
    "process_one U u out_csv out_xlsx (s, records, processed, w) =
       (r, (s', records @ [rec], processed + 1, w'))"
    and sc: "fst (scrape_item_with_bs U s u w) = Inr rec" and ur: "url rec = u"
    and fl: "(r, w') = flush WarnExcelLocked (records @ [rec]) out_csv out_xlsx
                (snd (snd (scrape_item_with_bs U s u w)))"
    by (rule process_one_result)
  let ?w1 = "snd (snd (scrape_item_with_bs U s u w))"
  have "writes_ok w \<longrightarrow> r = None \<and>
         (out_xlsx = [] \<or> out_csv \<noteq> out_xlsx \<longrightarrow>
            map_of (files w') out_csv = Some (CsvFile (records @ [rec]))) \<and>
         (out_xlsx \<noteq> [] \<longrightarrow>
            map_of (files w') out_xlsx = Some (Workbook (records @ [rec])))"
  proof
    assume "writes_ok w"
    then have ok: "writes_ok ?w1" using evolves_writes_ok[OF evolves_scrape] by blast
    have "(r, w') = write_outputs (records @ [rec]) out_csv out_xlsx ?w1"
      using fl flush_ok[OF ok] by simp
    then have "r = fst (write_outputs (records @ [rec]) out_csv out_xlsx ?w1)"
      and "w' = snd (write_outputs (records @ [rec]) out_csv out_xlsx ?w1)"
      by (metis fst_conv, metis snd_conv)
    then show "r = None \<and>
         (out_xlsx = [] \<or> out_csv \<noteq> out_xlsx \<longrightarrow>
            map_of (files w') out_csv = Some (CsvFile (records @ [rec]))) \<and>
         (out_xlsx \<noteq> [] \<longrightarrow>
            map_of (files w') out_xlsx = Some (Workbook (records @ [rec])))"
      using write_outputs_ok[OF ok, of "records @ [rec]" out_csv out_xlsx] by simp
  qed
  with p sc ur have "\<exists>rec r s' w'.
      process_one U u out_csv out_xlsx (s, records, processed, w) =
        (r, (s', records @ [rec], processed + 1, w')) \<and>
      fst (scrape_item_with_bs U s u w) = Inr rec \<and> url rec = u \<and>
      (writes_ok w \<longrightarrow> r = None \<and>
         (out_xlsx = [] \<or> out_csv \<noteq> out_xlsx \<longrightarrow>
            map_of (files w') out_csv = Some (CsvFile (records @ [rec]))) \<and>
         (out_xlsx \<noteq> [] \<longrightarrow>
            map_of (files w') out_xlsx = Some (Workbook (records @ [rec]))))"
    by blast
  moreover have "fst (get_html s u w) = Inr None \<longrightarrow>
      fst (scrape_item_with_bs U s u w) =
        Inr \<lparr>url = u, title = [], file_number = [], date = [], pdf_pages = None,
              full_text = [], sections = []\<rparr>"
    using scrape_failure[of s u w U] by (simp add: failure_record_def)
  ultimately show ?thesis by blast
qed

theorem one_record_per_url_even_on_failure_witness:
  "\<exists>s' w'.
     process_one plain_tables (str ''https://www.gao.gov/products/b-1'') (str ''out.csv'')
       (str ''out.xlsx'') (new_session, [], 0, world_with [Fails]) =
       (None, (s', [failure_record (str ''https://www.gao.gov/products/b-1'')], 1, w')) \<and>
     map_of (files w') (str ''out.csv'') =
       Some (CsvFile [failure_record (str ''https://www.gao.gov/products/b-1'')]) \<and>
     map_of (files w') (str ''out.xlsx'') =
       Some (Workbook [failure_record (str ''https://www.gao.gov/products/b-1'')])"
proof -
  let ?u = "str ''https://www.gao.gov/products/b-1''"
  let ?w = "world_with [Fails]"
  have ok: "writes_ok ?w" by (simp add: writes_ok_def world_with_def)
  have none: "fst (get_html new_session ?u ?w) = Inr None"
    using get_html_first_fails[of ?w "[]" new_session ?u] by (simp add: world_with_def)
  have ne: "str ''out.csv'' \<noteq> str ''out.xlsx''" "str ''out.xlsx'' \<noteq> []"
    by (simp_all add: str_def)
  from one_record_per_url_even_on_failure
    [of plain_tables ?u "str ''out.csv''" "str ''out.xlsx''" new_session "[]" 0 ?w]
  obtain rec r s' w' where
    p: "process_one plain_tables ?u (str ''out.csv'') (str ''out.xlsx'') (new_session, [], 0, ?w) =
          (r, (s', [] @ [rec], 0 + 1, w'))"
    and sc: "fst (scrape_item_with_bs plain_tables new_session ?u ?w) = Inr rec"
    and f: "r = None" "map_of (files w') (str ''out.csv'') = Some (CsvFile ([] @ [rec]))"
      "map_of (files w') (str ''out.xlsx'') = Some (Workbook ([] @ [rec]))"
    and fr: "fst (scrape_item_with_bs plain_tables new_session ?u ?w) = Inr (failure_record ?u)"
    using ok none ne unfolding failure_record_def by blast
  from sc fr have "rec = failure_record ?u" by simp
  with p f show ?thesis by auto
qed

end
